theory Spec2Isabelle
  imports
    Main
    "HOL-Library.Multiset"
    "HOL-Library.Finite_Map"
    "HOL-Library.Char_ord"
    "HOL-Library.List_Lexorder"
begin

section \<open>Go strings\<close>

text \<open>
  A Go string is a sequence of bytes, modelled as \<^typ>\<open>string\<close> (a list of 8-bit
  characters). The functions of package \<^verbatim>\<open>strings\<close> that \<^verbatim>\<open>main.go\<close> calls are
  written out on bytes. Every separator and marker the program passes to them is ASCII,
  and a byte below 0x80 never occurs inside a multi-byte UTF-8 sequence, so cutting at
  these bytes is cutting at the same runes.
\<close>

fun HasPrefix :: "string \<Rightarrow> string \<Rightarrow> bool" where
  "HasPrefix s [] = True"
| "HasPrefix [] (p # ps) = False"
| "HasPrefix (c # cs) (p # ps) = (c = p \<and> HasPrefix cs ps)"

fun Contains :: "string \<Rightarrow> string \<Rightarrow> bool" where
  "Contains [] sub = (sub = [])"
| "Contains (c # cs) sub = (HasPrefix (c # cs) sub \<or> Contains cs sub)"

text \<open>
  \<^verbatim>\<open>strings.ReplaceAll(s, old, new)\<close> replaces the non-overlapping occurrences of
  \<^verbatim>\<open>old\<close> from left to right. The program only calls it with a non-empty \<^verbatim>\<open>old\<close>;
  the model leaves \<^verbatim>\<open>s\<close> unchanged for an empty one.
\<close>

fun ReplaceAll :: "string \<Rightarrow> string \<Rightarrow> string \<Rightarrow> string" where
  "ReplaceAll [] old new = []"
| "ReplaceAll (c # cs) old new =
     (if old \<noteq> [] \<and> HasPrefix (c # cs) old
      then new @ ReplaceAll (drop (length old) (c # cs)) old new
      else c # ReplaceAll cs old new)"

text \<open>
  \<^verbatim>\<open>strings.FieldsFunc(s, f)\<close>: the maximal runs of characters that do not satisfy
  \<^verbatim>\<open>f\<close>; empty runs are not reported. \<open>cur\<close> is the field being read.
\<close>

fun fieldsFrom :: "(char \<Rightarrow> bool) \<Rightarrow> string \<Rightarrow> string \<Rightarrow> string list" where
  "fieldsFrom f cur [] = (if cur = [] then [] else [cur])"
| "fieldsFrom f cur (c # cs) =
     (if f c then (if cur = [] then fieldsFrom f [] cs else cur # fieldsFrom f [] cs)
      else fieldsFrom f (cur @ [c]) cs)"

definition FieldsFunc :: "string \<Rightarrow> (char \<Rightarrow> bool) \<Rightarrow> string list" where
  "FieldsFunc s f = fieldsFrom f [] s"

text \<open>
  \<^verbatim>\<open>strings.Split(s, sep)\<close> for a non-empty separator: the pieces between the
  non-overlapping occurrences of \<^verbatim>\<open>sep\<close>, one more piece than there are occurrences.
  The program splits on \<^verbatim>\<open>"."\<close>, \<^verbatim>\<open>"("\<close> and \<^verbatim>\<open>","\<close> only; for an empty separator the
  model returns the string as its single piece.
\<close>

fun splitFrom :: "string \<Rightarrow> string \<Rightarrow> string \<Rightarrow> string list" where
  "splitFrom sep cur [] = [cur]"
| "splitFrom sep cur (c # cs) =
     (if sep \<noteq> [] \<and> HasPrefix (c # cs) sep
      then cur # splitFrom sep [] (drop (length sep) (c # cs))
      else splitFrom sep (cur @ [c]) cs)"

definition Split :: "string \<Rightarrow> string \<Rightarrow> string list" where
  "Split s sep = splitFrom sep [] s"

fun Join :: "string list \<Rightarrow> string \<Rightarrow> string" where
  "Join [] sep = []"
| "Join [x] sep = x"
| "Join (x # y # ys) sep = x @ sep @ Join (y # ys) sep"

text \<open>
  White space as \<^verbatim>\<open>unicode.IsSpace\<close> defines it, read on the UTF-8 bytes:
  \<open>spaceWidth s\<close> is the number of bytes of the white-space rune that \<open>s\<close> starts with,
  and 0 when it starts with none. The runes are U+0009..U+000D, U+0020, U+0085, U+00A0,
  U+1680, U+2000..U+200A, U+2028, U+2029, U+202F, U+205F and U+3000.
\<close>

definition asciiSpace :: "char \<Rightarrow> bool" where
  "asciiSpace c = (c = CHR 0x09 \<or> c = CHR 0x0A \<or> c = CHR 0x0B \<or> c = CHR 0x0C
                   \<or> c = CHR 0x0D \<or> c = CHR 0x20)"

fun spaceWidth :: "string \<Rightarrow> nat" where
  "spaceWidth [] = 0"
| "spaceWidth [a] = (if asciiSpace a then 1 else 0)"
| "spaceWidth [a, b] =
     (if asciiSpace a then 1
      else if a = CHR 0xC2 \<and> (b = CHR 0x85 \<or> b = CHR 0xA0) then 2 else 0)"
| "spaceWidth (a # b # c # cs) =
     (if asciiSpace a then 1
      else if a = CHR 0xC2 \<and> (b = CHR 0x85 \<or> b = CHR 0xA0) then 2
      else if a = CHR 0xE1 \<and> b = CHR 0x9A \<and> c = CHR 0x80 then 3
      else if a = CHR 0xE2 \<and> b = CHR 0x80
              \<and> ((CHR 0x80 \<le> c \<and> c \<le> CHR 0x8A) \<or> c = CHR 0xA8 \<or> c = CHR 0xA9 \<or> c = CHR 0xAF)
           then 3
      else if a = CHR 0xE2 \<and> b = CHR 0x81 \<and> c = CHR 0x9F then 3
      else if a = CHR 0xE3 \<and> b = CHR 0x80 \<and> c = CHR 0x80 then 3
      else 0)"

text \<open>
  The same test at the end of a string, on the reversed bytes: \<open>spaceWidthRev (rev s)\<close>
  is the width of the white-space rune that \<open>s\<close> ends with.
\<close>

fun spaceWidthRev :: "string \<Rightarrow> nat" where
  "spaceWidthRev [] = 0"
| "spaceWidthRev [a] = (if asciiSpace a then 1 else 0)"
| "spaceWidthRev [b, a] =
     (if asciiSpace b then 1
      else if a = CHR 0xC2 \<and> (b = CHR 0x85 \<or> b = CHR 0xA0) then 2 else 0)"
| "spaceWidthRev (c # b # a # cs) =
     (if asciiSpace c then 1
      else if b = CHR 0xC2 \<and> (c = CHR 0x85 \<or> c = CHR 0xA0) then 2
      else if a = CHR 0xE1 \<and> b = CHR 0x9A \<and> c = CHR 0x80 then 3
      else if a = CHR 0xE2 \<and> b = CHR 0x80
              \<and> ((CHR 0x80 \<le> c \<and> c \<le> CHR 0x8A) \<or> c = CHR 0xA8 \<or> c = CHR 0xA9 \<or> c = CHR 0xAF)
           then 3
      else if a = CHR 0xE2 \<and> b = CHR 0x81 \<and> c = CHR 0x9F then 3
      else if a = CHR 0xE3 \<and> b = CHR 0x80 \<and> c = CHR 0x80 then 3
      else 0)"

lemma spaceWidth_le: "spaceWidth s \<le> length s"
  by (induction s rule: spaceWidth.induct) auto

lemma spaceWidthRev_le: "spaceWidthRev s \<le> length s"
  by (induction s rule: spaceWidthRev.induct) auto

function trimLeftSpace :: "string \<Rightarrow> string" where
  "trimLeftSpace s = (if spaceWidth s = 0 then s else trimLeftSpace (drop (spaceWidth s) s))"
  by pat_completeness auto
termination
proof (relation "measure length")
  show "wf (measure length)" by simp
next
  fix s :: string
  assume "spaceWidth s \<noteq> 0"
  moreover have "spaceWidth s \<le> length s" by (rule spaceWidth_le)
  ultimately show "(drop (spaceWidth s) s, s) \<in> measure length" by simp
qed

function trimLeftSpaceRev :: "string \<Rightarrow> string" where
  "trimLeftSpaceRev s =
     (if spaceWidthRev s = 0 then s else trimLeftSpaceRev (drop (spaceWidthRev s) s))"
  by pat_completeness auto
termination
proof (relation "measure length")
  show "wf (measure length)" by simp
next
  fix s :: string
  assume "spaceWidthRev s \<noteq> 0"
  moreover have "spaceWidthRev s \<le> length s" by (rule spaceWidthRev_le)
  ultimately show "(drop (spaceWidthRev s) s, s) \<in> measure length" by simp
qed

declare trimLeftSpace.simps [simp del] trimLeftSpaceRev.simps [simp del]

definition TrimSpace :: "string \<Rightarrow> string" where
  "TrimSpace s = rev (trimLeftSpaceRev (rev (trimLeftSpace s)))"

text \<open>
  \<^verbatim>\<open>strings.Fields(s)\<close>: the maximal runs of bytes between white-space runes.
  \<open>skip\<close> counts the bytes of a white-space rune still to be passed over.
\<close>

fun fieldsSpace :: "nat \<Rightarrow> string \<Rightarrow> string \<Rightarrow> string list" where
  "fieldsSpace skip cur [] = (if cur = [] then [] else [cur])"
| "fieldsSpace (Suc k) cur (c # cs) = fieldsSpace k cur cs"
| "fieldsSpace 0 cur (c # cs) =
     (if spaceWidth (c # cs) = 0 then fieldsSpace 0 (cur @ [c]) cs
      else if cur = [] then fieldsSpace (spaceWidth (c # cs) - 1) [] cs
      else cur # fieldsSpace (spaceWidth (c # cs) - 1) [] cs)"

definition Fields :: "string \<Rightarrow> string list" where
  "Fields s = fieldsSpace 0 [] s"

text \<open>
  \<^verbatim>\<open>strings.Trim(s, cutset)\<close> for an ASCII cutset: the leading and the trailing
  bytes that occur in the cutset are removed.
\<close>

definition Trim :: "string \<Rightarrow> string \<Rightarrow> string" where
  "Trim s cutset =
     rev (dropWhile (\<lambda>c. c \<in> set cutset) (rev (dropWhile (\<lambda>c. c \<in> set cutset) s)))"

text \<open>\<^verbatim>\<open>%d\<close> of \<^verbatim>\<open>fmt.Sprintf\<close>: an integer in decimal.\<close>

fun showNat :: "nat \<Rightarrow> string" where
  "showNat n =
     (if n < 10 then [char_of (48 + n)] else showNat (n div 10) @ [char_of (48 + n mod 10)])"

declare showNat.simps [simp del]

definition showInt :: "int \<Rightarrow> string" where
  "showInt i = (if i < 0 then CHR ''-'' # showNat (nat (- i)) else showNat (nat i))"

section \<open>Zero values and method stubs\<close>

definition getZeroValue :: "string \<Rightarrow> string" where
  "getZeroValue typ =
     (if HasPrefix typ ''*'' \<or> HasPrefix typ ''[]'' \<or> HasPrefix typ ''map['' \<or> Contains typ ''chan''
      then ''nil''
      else if typ = ''bool'' then ''false''
      else if typ = ''string'' then [CHR 0x22, CHR 0x22]
      else if typ \<in> set [''int'', ''int8'', ''int16'', ''int32'', ''int64'', ''uint'', ''uint8'',
                          ''uint16'', ''uint32'', ''uint64'', ''uintptr'', ''byte'', ''rune'']
           then ''0''
      else if typ \<in> set [''float32'', ''float64''] then ''0.0''
      else if typ \<in> set [''complex64'', ''complex128''] then ''0+0i''
      else if typ = ''error'' then ''nil''
      else if Contains typ ''.'' then ''nil''
      else typ @ ''{}'')"

text \<open>
  One step of the loop of \<^verbatim>\<open>generateZeroValues\<close>: the piece is trimmed, a piece with a
  space in it (a named result) is reduced to its last field, and the zero value of what
  is left is taken.
\<close>

definition zeroValueOfPiece :: "string \<Rightarrow> string" where
  "zeroValueOfPiece piece =
     (let typ = TrimSpace piece;
          typ = (if Contains typ '' ''
                 then (let parts = Fields typ in if length parts \<ge> 2 then last parts else typ)
                 else typ)
      in getZeroValue typ)"

definition generateZeroValues :: "string \<Rightarrow> string" where
  "generateZeroValues returnTypes =
     (if returnTypes = [] then []
      else Join (map zeroValueOfPiece (Split (Trim returnTypes ''()'') '','')) '', '')"

text \<open>
  The scan of \<^verbatim>\<open>parseMethodSignature\<close> for the parenthesis that closes the parameter
  list: \<open>findParamEnd i parenCount s\<close> is the index of the first \<^verbatim>\<open>)\<close> met at depth zero,
  counted from \<open>i\<close>, and \<open>None\<close> where the source leaves \<^verbatim>\<open>paramEnd\<close> at -1.
\<close>

fun findParamEnd :: "nat \<Rightarrow> int \<Rightarrow> string \<Rightarrow> nat option" where
  "findParamEnd i parenCount [] = None"
| "findParamEnd i parenCount (c # cs) =
     (if c = CHR ''('' then findParamEnd (Suc i) (parenCount + 1) cs
      else if c = CHR '')'' then
        (if parenCount = 0 then Some i else findParamEnd (Suc i) (parenCount - 1) cs)
      else findParamEnd (Suc i) parenCount cs)"

definition parseMethodSignature :: "string \<Rightarrow> string \<times> string \<times> string" where
  "parseMethodSignature methodSig =
     (let parts = Split methodSig ''('' in
      if length parts < 2 then ([], [], [])
      else
        let name = TrimSpace (hd parts);
            remainder = Join (tl parts) ''(''
        in case findParamEnd 0 0 remainder of
             None \<Rightarrow> (name, [], [])
           | Some paramEnd \<Rightarrow>
               (name, take paramEnd remainder, TrimSpace (drop (paramEnd + 1) remainder)))"

definition generateMethodImplementation :: "string \<Rightarrow> string \<Rightarrow> int \<Rightarrow> string" where
  "generateMethodImplementation methodSig implName level =
     (case parseMethodSignature methodSig of (methodName, params, returns) \<Rightarrow>
        if methodName = [] then []
        else
          ''// '' @ methodName @ '' is a no-op implementation (Level '' @ showInt level @ '')'' @ [CHR 0x0A]
          @ ''func (n *'' @ implName @ '') '' @ methodName @ ''('' @ params @ '')''
          @ (if returns \<noteq> [] then '' '' @ returns else [])
          @ '' {'' @ [CHR 0x0A]
          @ [CHR 0x09] @ ''// TODO: Implement '' @ methodName @ '' (Level '' @ showInt level @ '')'' @ [CHR 0x0A]
          @ (if returns \<noteq> [] then
               (let zeroValues = generateZeroValues returns in
                if zeroValues \<noteq> [] then [CHR 0x09] @ ''return '' @ zeroValues @ [CHR 0x0A] else [])
             else [])
          @ ''}'')"

section \<open>Dependency extraction\<close>

definition isBuiltinType :: "string \<Rightarrow> bool" where
  "isBuiltinType name =
     (name \<in> set [''bool'', ''byte'', ''complex64'', ''complex128'',
                   ''error'', ''float32'', ''float64'', ''int'',
                   ''int8'', ''int16'', ''int32'', ''int64'',
                   ''rune'', ''string'', ''uint'', ''uint8'',
                   ''uint16'', ''uint32'', ''uint64'', ''uintptr'',
                   ''interface'', ''func'', ''struct'', ''any''])"

definition isLetter :: "char \<Rightarrow> bool" where
  "isLetter c = ((CHR ''a'' \<le> c \<and> c \<le> CHR ''z'') \<or> (CHR ''A'' \<le> c \<and> c \<le> CHR ''Z'') \<or> c = CHR ''_'')"

definition isDigit :: "char \<Rightarrow> bool" where
  "isDigit c = (CHR ''0'' \<le> c \<and> c \<le> CHR ''9'')"

text \<open>
  \<^verbatim>\<open>isValidIdentifier\<close> reads the first byte and then the runes of the rest. A rune
  outside ASCII, or an invalid byte, fails the test, as every byte from 0x80 on does here.
\<close>

fun isValidIdentifier :: "string \<Rightarrow> bool" where
  "isValidIdentifier [] = False"
| "isValidIdentifier (first # rest) = (isLetter first \<and> list_all (\<lambda>r. isLetter r \<or> isDigit r) rest)"

text \<open>
  A Go \<^verbatim>\<open>map[string]bool\<close> used as a set of names is modelled by the list of its keys,
  without repetition; \<open>setAdd\<close> is the assignment \<^verbatim>\<open>deps[k] = true\<close>. The final
  \<^verbatim>\<open>for dep := range deps\<close> copies the keys to a slice in an order Go leaves open:
  the model returns them in the order of first insertion, and the properties below
  are stated on the set of the result, which no order changes.
\<close>

definition setAdd :: "string \<Rightarrow> string list \<Rightarrow> string list" where
  "setAdd k ks = (if k \<in> set ks then ks else ks @ [k])"

definition isSeparator :: "char \<Rightarrow> bool" where
  "isSeparator c =
     (c = CHR ''('' \<or> c = CHR '')'' \<or> c = CHR ''['' \<or> c = CHR '']'' \<or> c = CHR ''{'' \<or> c = CHR ''}''
      \<or> c = CHR '','' \<or> c = CHR '' '' \<or> c = CHR 0x09 \<or> c = CHR 0x0A)"

definition addWord :: "string \<Rightarrow> string list \<Rightarrow> string list" where
  "addWord w deps =
     (let word = TrimSpace w in
      if word = [] then deps
      else if isBuiltinType word then deps
      else if Contains word ''.'' then
        (let parts = Split word ''.'' in
         if length parts = 2 then setAdd (parts ! 1) deps else deps)
      else if isValidIdentifier word then setAdd word deps
      else deps)"

definition extractTypeDependencies :: "string \<Rightarrow> string list" where
  "extractTypeDependencies typeStr =
     (let cleaned = ReplaceAll typeStr ''*'' [];
          cleaned = ReplaceAll cleaned ''[]'' [];
          cleaned = ReplaceAll cleaned ''map['' [];
          cleaned = ReplaceAll cleaned ''chan '' [];
          cleaned = ReplaceAll cleaned ''<-'' [];
          words = FieldsFunc cleaned isSeparator
      in fold addWord words [])"

section \<open>Declarations\<close>

record GoStruct =
  Name :: string
  Package :: string
  Fields :: "string list"
  Methods :: "string list"
  Position :: string
  Level :: int

record GoInterface =
  Name :: string
  Package :: string
  Methods :: "string list"
  Position :: string
  Level :: int

record GoFunction =
  Name :: string
  Package :: string
  Receiver :: string
  Parameters :: "string list"
  Returns :: "string list"
  Position :: string
  Level :: int

record GoVariable =
  Name :: string
  Package :: string
  Type :: string
  Position :: string
  Level :: int

record GoConstant =
  Name :: string
  Package :: string
  Type :: string
  Value :: string
  Position :: string
  Level :: int

subsection \<open>The dependency extractors and name providers of each kind\<close>

definition Struct_ExtractDependencies :: "GoStruct \<Rightarrow> string list" where
  "Struct_ExtractDependencies item =
     fold (\<lambda>field deps.
             fold (\<lambda>dep deps. if dep \<noteq> GoStruct.Name item then setAdd dep deps else deps)
                  (extractTypeDependencies field) deps)
          (GoStruct.Fields item) []"

definition Struct_GetTypeName :: "GoStruct \<Rightarrow> string" where
  "Struct_GetTypeName item = GoStruct.Name item"

definition Interface_ExtractDependencies :: "GoInterface \<Rightarrow> string list" where
  "Interface_ExtractDependencies item =
     fold (\<lambda>method deps.
             fold (\<lambda>dep deps. if dep \<noteq> GoInterface.Name item then setAdd dep deps else deps)
                  (extractTypeDependencies method) deps)
          (GoInterface.Methods item) []"

definition Interface_GetTypeName :: "GoInterface \<Rightarrow> string" where
  "Interface_GetTypeName item = GoInterface.Name item"

text \<open>
  \<^verbatim>\<open>InterfaceNoOpCodeGenerator.GenerateCode\<close>: the stub of an interface. The level
  written into it is the \<^verbatim>\<open>Level\<close> field of the item.
\<close>

definition Interface_GenerateCode :: "GoInterface \<Rightarrow> string" where
  "Interface_GenerateCode item =
     (if GoInterface.Name item = [] then []
      else
        let implName = ''NoOp'' @ GoInterface.Name item in
        ''// '' @ implName @ '' is a no-op implementation of '' @ GoInterface.Name item
          @ '' interface (Level '' @ showInt (GoInterface.Level item) @ '')'' @ [CHR 0x0A]
        @ ''type '' @ implName @ '' struct {'' @ [CHR 0x0A]
        @ [CHR 0x09] @ ''level int // Dependency level: '' @ showInt (GoInterface.Level item) @ [CHR 0x0A]
        @ ''}'' @ [CHR 0x0A, CHR 0x0A]
        @ ''// New'' @ implName @ '' creates a new no-op implementation at the specified level'' @ [CHR 0x0A]
        @ ''func New'' @ implName @ ''(level int) *'' @ implName @ '' {'' @ [CHR 0x0A]
        @ [CHR 0x09] @ ''return &'' @ implName @ ''{level: level}'' @ [CHR 0x0A]
        @ ''}'' @ [CHR 0x0A, CHR 0x0A]
        @ ''// GetLevel returns the dependency level of this '' @ implName @ [CHR 0x0A]
        @ ''func (n *'' @ implName @ '') GetLevel() int {'' @ [CHR 0x0A]
        @ [CHR 0x09] @ ''return n.level'' @ [CHR 0x0A]
        @ ''}'' @ [CHR 0x0A, CHR 0x0A]
        @ concat (map (\<lambda>method.
                         let methodImpl = generateMethodImplementation method implName
                                            (GoInterface.Level item)
                         in if methodImpl \<noteq> [] then methodImpl @ [CHR 0x0A] else [])
                      (GoInterface.Methods item)))"

definition Function_ExtractDependencies :: "GoFunction \<Rightarrow> string list" where
  "Function_ExtractDependencies item =
     (let deps = (if GoFunction.Receiver item \<noteq> []
                  then fold setAdd (extractTypeDependencies (GoFunction.Receiver item)) []
                  else []);
          deps = fold (\<lambda>param deps. fold setAdd (extractTypeDependencies param) deps)
                      (GoFunction.Parameters item) deps;
          deps = fold (\<lambda>ret deps. fold setAdd (extractTypeDependencies ret) deps)
                      (GoFunction.Returns item) deps
      in deps)"

definition Function_GetTypeName :: "GoFunction \<Rightarrow> string" where
  "Function_GetTypeName item =
     (if GoFunction.Receiver item \<noteq> []
      then GoFunction.Receiver item @ ''.'' @ GoFunction.Name item
      else GoFunction.Name item)"

definition Variable_ExtractDependencies :: "GoVariable \<Rightarrow> string list" where
  "Variable_ExtractDependencies item = extractTypeDependencies (GoVariable.Type item)"

definition Variable_GetTypeName :: "GoVariable \<Rightarrow> string" where
  "Variable_GetTypeName item = GoVariable.Name item"

definition Constant_ExtractDependencies :: "GoConstant \<Rightarrow> string list" where
  "Constant_ExtractDependencies item = extractTypeDependencies (GoConstant.Type item)"

definition Constant_GetTypeName :: "GoConstant \<Rightarrow> string" where
  "Constant_GetTypeName item = GoConstant.Name item"

section \<open>The topological resolver\<close>

text \<open>
  A Go map is a finite map. Reading a key that is absent yields the zero value of the
  element type, which \<open>mapGet\<close> takes as its first argument.

  \<^verbatim>\<open>for k := range m\<close> visits every key once, in an order that Go does not fix and
  that differs from run to run. The order of each such loop of
  \<^verbatim>\<open>ResolveDependencies\<close> is therefore an argument of the model: a list of keys.
  \<open>rangeOrder ks m\<close> says that \<open>ks\<close> is one of the orders Go may choose for \<open>m\<close>.
\<close>

definition mapGet :: "'v \<Rightarrow> ('k, 'v) fmap \<Rightarrow> 'k \<Rightarrow> 'v" where
  "mapGet zero m k = (case fmlookup m k of None \<Rightarrow> zero | Some v \<Rightarrow> v)"

definition rangeOrder :: "'k list \<Rightarrow> ('k, 'v) fmap \<Rightarrow> bool" where
  "rangeOrder ks m = (distinct ks \<and> set ks = fmdom' m)"

text \<open>Build the item map: a later item replaces an earlier one of the same name.\<close>

definition buildAllItems :: "('a \<Rightarrow> string) \<Rightarrow> 'a list \<Rightarrow> (string, 'a) fmap" where
  "buildAllItems getTypeName items =
     fold (\<lambda>item allItems.
             let name = getTypeName item in
             if name \<noteq> [] then fmupd name item allItems else allItems)
          items fmempty"

text \<open>Initialize all nodes.\<close>

definition initNodes ::
  "string list \<Rightarrow> (string, string list) fmap \<times> (string, int) fmap" where
  "initNodes ks = fold (\<lambda>name (graph, inDegree). (fmupd name [] graph, fmupd name 0 inDegree))
                       ks (fmempty, fmempty)"

text \<open>Build edges: one edge from each dependency that is a key of the item map.\<close>

definition addEdge ::
  "(string, 'a) fmap \<Rightarrow> string \<Rightarrow> string
   \<Rightarrow> (string, string list) fmap \<times> (string, int) fmap
   \<Rightarrow> (string, string list) fmap \<times> (string, int) fmap" where
  "addEdge allItems name dep = (\<lambda>(graph, inDegree).
     if dep |\<in>| fmdom allItems
     then (fmupd dep (mapGet [] graph dep @ [name]) graph,
           fmupd name (mapGet 0 inDegree name + 1) inDegree)
     else (graph, inDegree))"

definition buildEdges ::
  "('a \<Rightarrow> string list) \<Rightarrow> (string, 'a) fmap \<Rightarrow> string list
   \<Rightarrow> (string, string list) fmap \<times> (string, int) fmap
   \<Rightarrow> (string, string list) fmap \<times> (string, int) fmap" where
  "buildEdges extractDependencies allItems ks =
     fold (\<lambda>name gd. case fmlookup allItems name of
                        None \<Rightarrow> gd
                      | Some item \<Rightarrow> fold (addEdge allItems name) (extractDependencies item) gd)
          ks"

text \<open>The initial queue: the keys of \<^verbatim>\<open>inDegree\<close> whose degree is 0.\<close>

definition initialQueue :: "(string, int) fmap \<Rightarrow> string list \<Rightarrow> string list" where
  "initialQueue inDegree ks = filter (\<lambda>name. fmlookup inDegree name = Some 0) ks"

text \<open>The body of the loop over \<^verbatim>\<open>graph[current]\<close>.\<close>

definition releaseDependent ::
  "string \<Rightarrow> (string, int) fmap \<times> string list \<Rightarrow> (string, int) fmap \<times> string list" where
  "releaseDependent dependent = (\<lambda>(inDegree, queue).
     let inDegree = fmupd dependent (mapGet 0 inDegree dependent - 1) inDegree in
     if mapGet 0 inDegree dependent = 0 then (inDegree, queue @ [dependent])
     else (inDegree, queue))"

text \<open>
  Kahn's loop. The state is the queue, the in-degrees, the processed names and the
  result so far. The loop ends: a step either shortens the queue, or marks as processed a
  key of \<^verbatim>\<open>graph\<close> that was not.
\<close>

definition unprocessedKeys :: "(string, string list) fmap \<Rightarrow> (string, bool) fmap \<Rightarrow> string set" where
  "unprocessedKeys graph processed = {k \<in> fmdom' graph. \<not> mapGet False processed k}"

lemma unprocessedKeys_finite: "finite (unprocessedKeys graph processed)"
  by (simp add: unprocessedKeys_def)

lemma unprocessedKeys_mark_subset:
  "unprocessedKeys graph (fmupd current True processed) \<subseteq> unprocessedKeys graph processed"
  by (auto simp: unprocessedKeys_def mapGet_def split: if_splits)

lemma unprocessedKeys_mark_less:
  assumes "\<not> mapGet False processed current" and "current \<in> fmdom' graph"
  shows "card (unprocessedKeys graph (fmupd current True processed))
         < card (unprocessedKeys graph processed)"
proof (rule psubset_card_mono)
  show "finite (unprocessedKeys graph processed)" by (rule unprocessedKeys_finite)
  have "current \<in> unprocessedKeys graph processed"
    using assms by (simp add: unprocessedKeys_def)
  moreover have "current \<notin> unprocessedKeys graph (fmupd current True processed)"
    by (simp add: unprocessedKeys_def mapGet_def)
  ultimately show "unprocessedKeys graph (fmupd current True processed)
                   \<subset> unprocessedKeys graph processed"
    using unprocessedKeys_mark_subset[of graph current processed] by blast
qed

lemma unprocessedKeys_mark_same:
  assumes "current \<notin> fmdom' graph"
  shows "unprocessedKeys graph (fmupd current True processed) = unprocessedKeys graph processed"
  using assms by (auto simp: unprocessedKeys_def mapGet_def)

lemma mapGet_absent: "k \<notin> fmdom' m \<Longrightarrow> mapGet zero m k = zero"
  by (auto simp: mapGet_def split: option.splits)

function kahnLoop ::
  "(string, 'a) fmap \<Rightarrow> (string, string list) fmap
   \<Rightarrow> string list \<times> (string, int) fmap \<times> (string, bool) fmap \<times> 'a list
   \<Rightarrow> (string, bool) fmap \<times> 'a list" where
  "kahnLoop allItems graph (queue, inDegree, processed, result) =
     (if queue = [] then (processed, result)
      else
        let sorted = sort queue;
            current = hd sorted;
            queue = tl sorted
        in if mapGet False processed current
           then kahnLoop allItems graph (queue, inDegree, processed, result)
           else
             let processed = fmupd current True processed;
                 result = (case fmlookup allItems current of
                             Some item \<Rightarrow> result @ [item]
                           | None \<Rightarrow> result);
                 (inDegree, queue) = fold releaseDependent (mapGet [] graph current) (inDegree, queue)
             in kahnLoop allItems graph (queue, inDegree, processed, result))"
  by pat_completeness auto
termination
proof (relation "inv_image (less_than <*lex*> less_than)
         (\<lambda>(allItems, graph, (queue, inDegree, processed, result)).
            (card (unprocessedKeys graph processed), length queue))", goal_cases)
  case 1
  show ?case by (intro wf_inv_image wf_lex_prod wf_less_than)
next
  case (2 allItems graph queue inDegree processed result sorted current queue')
  then have "length queue' < length queue"
    by (cases queue) (auto simp: length_tl)
  then show ?case by simp
next
  case (3 allItems graph queue inDegree processed result sorted current queue' processed' result' x inDegree' queue'')
  show ?case
  proof (cases "current \<in> fmdom' graph")
    case True
    with 3 have "card (unprocessedKeys graph processed') < card (unprocessedKeys graph processed)"
      using unprocessedKeys_mark_less by simp
    then show ?thesis by simp
  next
    case False
    then have "mapGet [] graph current = []" by (rule mapGet_absent)
    with 3 have q: "queue'' = queue'" by simp
    from 3 have "length queue' < length queue"
      by (cases queue) (auto simp: length_tl)
    moreover from False 3 have "unprocessedKeys graph processed' = unprocessedKeys graph processed"
      using unprocessedKeys_mark_same by simp
    ultimately show ?thesis using q by simp
  qed
qed

declare kahnLoop.simps [simp del]

text \<open>
  \<^verbatim>\<open>ResolveDependencies\<close>. \<open>ks\<^sub>1\<close>, \<open>ks\<^sub>2\<close> and \<open>ks\<^sub>3\<close> are the orders of its three
  loops over a map: the one that initializes the nodes, the one that builds the edges
  (both over \<^verbatim>\<open>allItems\<close>) and the one that fills the queue (over \<^verbatim>\<open>inDegree\<close>, which
  has the same keys). The last loop appends the items whose name is not processed, in
  input order. An in-degree is a Go \<^verbatim>\<open>int\<close>; it never exceeds the number of dependency
  entries of one item, so it is modelled by an unbounded integer.
\<close>

definition ResolveDependencies ::
  "('a \<Rightarrow> string list) \<Rightarrow> ('a \<Rightarrow> string) \<Rightarrow> string list \<Rightarrow> string list \<Rightarrow> string list
   \<Rightarrow> 'a list \<Rightarrow> 'a list" where
  "ResolveDependencies extractDependencies getTypeName ks\<^sub>1 ks\<^sub>2 ks\<^sub>3 items =
     (let allItems = buildAllItems getTypeName items;
          (graph, inDegree) = buildEdges extractDependencies allItems ks\<^sub>2 (initNodes ks\<^sub>1);
          queue = initialQueue inDegree ks\<^sub>3;
          (processed, result) = kahnLoop allItems graph (queue, inDegree, fmempty, [])
      in result @ filter (\<lambda>item. \<not> mapGet False processed (getTypeName item)) items)"


section \<open>The dependency graph and the loop invariant\<close>

text \<open>
  The notions in which the properties of the resolver are stated. \<open>presentDeps\<close> lists
  the dependencies of the item registered under a name that are keys of the item map,
  \<open>dependencyEdges\<close> is the graph they form (an edge runs from a dependency to its
  dependent), \<open>edgeStep\<close> is the body of the loop that builds the edges,
  \<open>kahnInv\<close> is the invariant of Kahn's loop, and \<open>releaseAbs\<close> is the body of its
  inner loop with the queue read as a multiset.
\<close>

definition presentDeps :: "('a \<Rightarrow> string list) \<Rightarrow> (string, 'a) fmap \<Rightarrow> string \<Rightarrow> string list" where
  "presentDeps ex M n =
     (case fmlookup M n of
        None \<Rightarrow> []
      | Some item \<Rightarrow> filter (\<lambda>dep. dep |\<in>| fmdom M) (ex item))"

definition edgeStep ::
  "('a \<Rightarrow> string list) \<Rightarrow> (string, 'a) fmap \<Rightarrow> string
   \<Rightarrow> (string, string list) fmap \<times> (string, int) fmap
   \<Rightarrow> (string, string list) fmap \<times> (string, int) fmap" where
  "edgeStep ex M name gd =
     (case fmlookup M name of None \<Rightarrow> gd | Some item \<Rightarrow> fold (addEdge M name) (ex item) gd)"

definition graphOf ::
  "('a \<Rightarrow> string list) \<Rightarrow> (string, 'a) fmap \<Rightarrow> (string, string list) fmap \<Rightarrow> bool" where
  "graphOf ex M g =
     (\<forall>a n. count_list (mapGet [] g a) n
              = (if n \<in> fmdom' M then count_list (presentDeps ex M n) a else 0))"

definition namedMap :: "('a \<Rightarrow> string) \<Rightarrow> (string, 'a) fmap \<Rightarrow> bool" where
  "namedMap nm M = (\<forall>n x. fmlookup M n = Some x \<longrightarrow> nm x = n)"

definition kahnInv ::
  "('a \<Rightarrow> string) \<Rightarrow> ('a \<Rightarrow> string list) \<Rightarrow> (string, 'a) fmap
   \<Rightarrow> string list \<times> (string, int) fmap \<times> (string, bool) fmap \<times> 'a list \<Rightarrow> bool" where
  "kahnInv nm ex M = (\<lambda>(q, d, P, r).
     set q \<subseteq> fmdom' M
     \<and> (\<forall>n \<in> fmdom' M. mapGet 0 d n
           = int (length (filter (\<lambda>a. \<not> mapGet False P a) (presentDeps ex M n))))
     \<and> (\<forall>n \<in> fmdom' M. \<not> mapGet False P n \<and> mapGet 0 d n = 0 \<longrightarrow> n \<in> set q)
     \<and> (\<forall>n \<in> set q. mapGet 0 d n = 0)
     \<and> distinct (map nm r)
     \<and> set (map nm r) = {n. mapGet False P n}
     \<and> (\<forall>x \<in> set r. fmlookup M (nm x) = Some x)
     \<and> (\<forall>j < length r. \<forall>a \<in> set (presentDeps ex M (nm (r ! j))). \<exists>i < j. nm (r ! i) = a))"

definition dependencyEdges ::
  "('a \<Rightarrow> string list) \<Rightarrow> (string, 'a) fmap \<Rightarrow> (string \<times> string) set" where
  "dependencyEdges ex M =
     {(a, b). a \<in> fmdom' M \<and> (\<exists>item. fmlookup M b = Some item \<and> a \<in> set (ex item))}"

definition releaseAbs ::
  "string \<Rightarrow> (string, int) fmap \<times> string multiset \<Rightarrow> (string, int) fmap \<times> string multiset" where
  "releaseAbs dependent = (\<lambda>(inDegree, ready).
     if mapGet 0 inDegree dependent - 1 = 0
     then (fmupd dependent (mapGet 0 inDegree dependent - 1) inDegree, add_mset dependent ready)
     else (fmupd dependent (mapGet 0 inDegree dependent - 1) inDegree, ready))"

section \<open>Example declarations\<close>

text \<open>The declarations on which the properties below are evaluated.\<close>

definition readerDecl :: GoInterface where
  "readerDecl = \<lparr>GoInterface.Name = ''Reader'', Package = ''main'',
                  Methods = [''Read(p []byte) (int, error)''],
                  Position = ''example.go:10:1'', Level = 0\<rparr>"

definition writerDecl :: GoInterface where
  "writerDecl = \<lparr>GoInterface.Name = ''Writer'', Package = ''main'',
                  Methods = [''Write(r Reader) error'', ''Close() error''],
                  Position = ''example.go:15:1'', Level = 0\<rparr>"

definition unnamedVar :: GoVariable where
  "unnamedVar = \<lparr>GoVariable.Name = [], Package = ''main'', Type = ''int'',
                  Position = ''u.go:2:5'', Level = 0\<rparr>"

definition dependentVar :: GoVariable where
  "dependentVar = \<lparr>GoVariable.Name = ''B'', Package = ''main'', Type = ''pkg.'',
                    Position = ''u.go:3:5'', Level = 0\<rparr>"






definition handlerFunc :: GoFunction where
  "handlerFunc = \<lparr>GoFunction.Name = ''handler'', Package = ''main'', Receiver = [],
                   Parameters = [''handler Handler''], Returns = [],
                   Position = ''h.go:5:1'', Level = 0\<rparr>"

definition configVar :: GoVariable where
  "configVar = \<lparr>GoVariable.Name = ''Config'', Package = ''main'', Type = ''Config'',
                 Position = ''c.go:9:5'', Level = 0\<rparr>"

definition limitConst :: GoConstant where
  "limitConst = \<lparr>GoConstant.Name = ''Limit'', Package = ''main'', Type = ''Limit'',
                  Value = ''10'', Position = ''c.go:12:7'', Level = 0\<rparr>"

definition zetaFunc :: GoFunction where
  "zetaFunc = \<lparr>GoFunction.Name = ''zeta'', Package = ''main'', Receiver = [],
                Parameters = [], Returns = [], Position = ''h.go:9:1'', Level = 0\<rparr>"

definition alphaDecl :: GoVariable where
  "alphaDecl = \<lparr>GoVariable.Name = ''Alpha'', Package = ''main'', Type = ''int'',
                 Position = ''v.go:4:5'', Level = 0\<rparr>"

definition bravoDecl :: GoVariable where
  "bravoDecl = \<lparr>GoVariable.Name = ''Bravo'', Package = ''main'', Type = ''string'',
                 Position = ''v.go:3:5'', Level = 0\<rparr>"

section \<open>Properties of the string functions\<close>

lemma HasPrefix_iff: "HasPrefix s p \<longleftrightarrow> (\<exists>q. s = p @ q)"
  by (induction s p rule: HasPrefix.induct) auto

lemma Contains_iff: "Contains s sub \<longleftrightarrow> (\<exists>p q. s = p @ sub @ q)"
proof (induction s)
  case Nil
  then show ?case by simp
next
  case (Cons c cs)
  show ?case
  proof
    assume "Contains (c # cs) sub"
    then consider "HasPrefix (c # cs) sub" | "Contains cs sub" by auto
    then show "\<exists>p q. c # cs = p @ sub @ q"
    proof cases
      case 1
      then obtain q where "c # cs = sub @ q" by (auto simp: HasPrefix_iff)
      then have "c # cs = [] @ sub @ q" by simp
      then show ?thesis by blast
    next
      case 2
      then obtain p q where "cs = p @ sub @ q" using Cons.IH by blast
      then have "c # cs = (c # p) @ sub @ q" by simp
      then show ?thesis by blast
    qed
  next
    assume "\<exists>p q. c # cs = p @ sub @ q"
    then obtain p q where pq: "c # cs = p @ sub @ q" by blast
    show "Contains (c # cs) sub"
    proof (cases p)
      case Nil
      with pq have "HasPrefix (c # cs) sub" by (auto simp: HasPrefix_iff)
      then show ?thesis by simp
    next
      case (Cons a p')
      with pq have "cs = p' @ sub @ q" by simp
      then have "Contains cs sub" using Cons.IH by blast
      then show ?thesis by simp
    qed
  qed
qed

text \<open>Splitting on a single character, and joining the pieces again.\<close>

lemma splitFrom_char_absent:
  "c \<notin> set s \<Longrightarrow> splitFrom [c] cur s = [cur @ s]"
  by (induction s arbitrary: cur) auto

lemma splitFrom_char_present:
  "c \<in> set s \<Longrightarrow>
   splitFrom [c] cur s
     = (cur @ takeWhile (\<lambda>x. x \<noteq> c) s) # splitFrom [c] [] (tl (dropWhile (\<lambda>x. x \<noteq> c) s))"
  by (induction s arbitrary: cur) auto

lemma splitFrom_nonempty: "splitFrom sep cur s \<noteq> []"
  by (induction sep cur s rule: splitFrom.induct) auto

lemma Join_Cons: "ys \<noteq> [] \<Longrightarrow> Join (x # ys) sep = x @ sep @ Join ys sep"
  by (cases ys) auto

lemma Join_splitFrom_char: "Join (splitFrom [c] cur s) [c] = cur @ s"
proof (induction "length s" arbitrary: cur s rule: less_induct)
  case less
  show ?case
  proof (cases "c \<in> set s")
    case False
    then show ?thesis by (simp add: splitFrom_char_absent)
  next
    case True
    let ?d = "dropWhile (\<lambda>x. x \<noteq> c) s"
    have dw: "?d \<noteq> []" using True by simp
    then have hd: "hd ?d = c"
      using hd_dropWhile[of "\<lambda>x. x \<noteq> c" s] by simp
    have s_eq: "s = takeWhile (\<lambda>x. x \<noteq> c) s @ c # tl ?d"
      using dw hd by (metis takeWhile_dropWhile_id list.collapse)
    have "length ?d \<le> length s" by (rule length_dropWhile_le)
    moreover have "length (tl ?d) < length ?d" using dw by simp
    ultimately have "length (tl ?d) < length s" by simp
    then have IH: "Join (splitFrom [c] [] (tl ?d)) [c] = tl ?d" using less by simp
    have "Join (splitFrom [c] cur s) [c] =
          (cur @ takeWhile (\<lambda>x. x \<noteq> c) s) @ [c] @ Join (splitFrom [c] [] (tl ?d)) [c]"
      using True by (simp add: splitFrom_char_present Join_Cons splitFrom_nonempty)
    also have "\<dots> = cur @ (takeWhile (\<lambda>x. x \<noteq> c) s @ c # tl ?d)" using IH by simp
    finally show ?thesis using s_eq by simp
  qed
qed

section \<open>Dependency extraction on the documented examples\<close>

text \<open>
  Claim C6. Read as a set of names, \<^verbatim>\<open>extractTypeDependencies\<close> yields exactly
  \<open>{UserService}\<close> on \<^verbatim>\<open>"*[]map[string]UserService"\<close>, the empty set on \<^verbatim>\<open>"int"\<close>,
  exactly \<open>{Reader}\<close> on \<^verbatim>\<open>"pkg.Reader"\<close>, and the empty set on the empty string.
\<close>

theorem extractTypeDependencies_examples:
  "set (extractTypeDependencies ''*[]map[string]UserService'') = {''UserService''}
   \<and> set (extractTypeDependencies ''int'') = {}
   \<and> set (extractTypeDependencies ''pkg.Reader'') = {''Reader''}
   \<and> set (extractTypeDependencies []) = {}"
proof -
  have "extractTypeDependencies ''*[]map[string]UserService'' = [''UserService'']" by code_simp
  moreover have "extractTypeDependencies ''int'' = []" by code_simp
  moreover have "extractTypeDependencies ''pkg.Reader'' = [''Reader'']" by code_simp
  moreover have "extractTypeDependencies [] = []" by code_simp
  ultimately show ?thesis by simp
qed

section \<open>Zero values\<close>

text \<open>
  Claim C7. \<^verbatim>\<open>generateZeroValues\<close> yields \<^verbatim>\<open>0, nil\<close> for the return clause
  \<^verbatim>\<open>(int, error)\<close>, the empty-string literal (two double quotes) for \<^verbatim>\<open>string\<close>,
  \<^verbatim>\<open>nil\<close> for \<^verbatim>\<open>*Widget\<close>, and the composite literal \<^verbatim>\<open>Widget{}\<close> for \<^verbatim>\<open>Widget\<close>.
\<close>

theorem generateZeroValues_examples:
  "generateZeroValues ''(int, error)'' = ''0, nil''
   \<and> generateZeroValues ''string'' = [CHR 0x22, CHR 0x22]
   \<and> generateZeroValues ''*Widget'' = ''nil''
   \<and> generateZeroValues ''Widget'' = ''Widget{}''"
  by code_simp

text \<open>
  Claim C10. For every type token that contains \<^verbatim>\<open>chan\<close> somewhere, that is every
  token of the form \<open>p @ ''chan'' @ q\<close>, \<^verbatim>\<open>getZeroValue\<close> returns \<^verbatim>\<open>nil\<close>. This
  includes a user-defined name that is no channel, such as \<^verbatim>\<open>Merchant\<close>, for which the
  result is \<^verbatim>\<open>nil\<close> and not the composite literal \<^verbatim>\<open>Merchant{}\<close>.
\<close>

theorem getZeroValue_chan_substring:
  "(\<forall>p q. getZeroValue (p @ ''chan'' @ q) = ''nil'')
   \<and> getZeroValue ''Merchant'' = ''nil''
   \<and> getZeroValue ''Merchant'' \<noteq> ''Merchant{}''"
proof (intro conjI allI)
  fix p q :: string
  have "Contains (p @ ''chan'' @ q) ''chan''" unfolding Contains_iff by blast
  then show "getZeroValue (p @ ''chan'' @ q) = ''nil''" by (simp add: getZeroValue_def)
next
  have "Contains (''Mer'' @ ''chan'' @ ''t'') ''chan''" unfolding Contains_iff by blast
  then have "Contains ''Merchant'' ''chan''" by simp
  then show "getZeroValue ''Merchant'' = ''nil''" by (simp add: getZeroValue_def)
  then show "getZeroValue ''Merchant'' \<noteq> ''Merchant{}''" by simp
qed

section \<open>Method signatures that cannot be parsed\<close>

lemma parseMethodSignature_no_paren:
  assumes "CHR ''('' \<notin> set methodSig"
  shows "parseMethodSignature methodSig = ([], [], [])"
  using assms by (simp add: parseMethodSignature_def Split_def splitFrom_char_absent)

lemma parseMethodSignature_unclosed:
  assumes "CHR ''('' \<in> set methodSig"
    and "findParamEnd 0 0 (tl (dropWhile (\<lambda>x. x \<noteq> CHR ''('') methodSig)) = None"
  shows "parseMethodSignature methodSig
         = (TrimSpace (takeWhile (\<lambda>x. x \<noteq> CHR ''('') methodSig), [], [])"
  using assms
  by (simp add: parseMethodSignature_def Split_def splitFrom_char_present
      splitFrom_nonempty Join_splitFrom_char Let_def)

text \<open>
  Claim C8 says that a signature in which the scan finds no parenthesis closing the
  parameter list yields no generated method. The source returns the parsed name with
  empty parameters and returns in that case (\<^verbatim>\<open>return name, "", ""\<close>), and
  \<^verbatim>\<open>generateMethodImplementation\<close> only skips an empty name. For \<^verbatim>\<open>Foo(a int\<close> the
  scan finds no closing parenthesis and a method \<^verbatim>\<open>Foo()\<close> is generated.
\<close>

theorem unclosed_signature_counterexample:
  "findParamEnd 0 0 (Join (tl (Split ''Foo(a int'' ''('')) ''('') = None
   \<and> generateMethodImplementation ''Foo(a int'' ''NoOpX'' 0
       = ''// Foo is a no-op implementation (Level 0)'' @ [CHR 0x0A]
         @ ''func (n *NoOpX) Foo() {'' @ [CHR 0x0A]
         @ [CHR 0x09] @ ''// TODO: Implement Foo (Level 0)'' @ [CHR 0x0A] @ ''}''
   \<and> generateMethodImplementation ''Foo(a int'' ''NoOpX'' 0 \<noteq> []"
  by code_simp

text \<open>
  Claim C8, amended. A signature without any \<^verbatim>\<open>(\<close> yields no generated method (the
  empty string). A signature with a \<^verbatim>\<open>(\<close> after which the scan finds no closing
  parenthesis at depth zero yields no method only when the text before the first \<^verbatim>\<open>(\<close>
  is blank; otherwise it yields a method with that name, trimmed, an empty parameter list,
  no return clause and no return statement.
\<close>

theorem unparseable_signature:
  "(CHR ''('' \<notin> set methodSig \<longrightarrow> generateMethodImplementation methodSig implName level = [])
   \<and> (CHR ''('' \<in> set methodSig
        \<and> findParamEnd 0 0 (tl (dropWhile (\<lambda>x. x \<noteq> CHR ''('') methodSig)) = None \<longrightarrow>
      generateMethodImplementation methodSig implName level
        = (let methodName = TrimSpace (takeWhile (\<lambda>x. x \<noteq> CHR ''('') methodSig) in
           if methodName = [] then []
           else ''// '' @ methodName @ '' is a no-op implementation (Level '' @ showInt level @ '')'' @ [CHR 0x0A]
                @ ''func (n *'' @ implName @ '') '' @ methodName @ ''() {'' @ [CHR 0x0A]
                @ [CHR 0x09] @ ''// TODO: Implement '' @ methodName @ '' (Level '' @ showInt level @ '')'' @ [CHR 0x0A]
                @ ''}''))"
proof (intro conjI impI)
  assume "CHR ''('' \<notin> set methodSig"
  then show "generateMethodImplementation methodSig implName level = []"
    by (simp add: generateMethodImplementation_def parseMethodSignature_no_paren)
next
  assume h: "CHR ''('' \<in> set methodSig
        \<and> findParamEnd 0 0 (tl (dropWhile (\<lambda>x. x \<noteq> CHR ''('') methodSig)) = None"
  then have "parseMethodSignature methodSig
         = (TrimSpace (takeWhile (\<lambda>x. x \<noteq> CHR ''('') methodSig), [], [])"
    by (simp add: parseMethodSignature_unclosed)
  then show "generateMethodImplementation methodSig implName level
        = (let methodName = TrimSpace (takeWhile (\<lambda>x. x \<noteq> CHR ''('') methodSig) in
           if methodName = [] then []
           else ''// '' @ methodName @ '' is a no-op implementation (Level '' @ showInt level @ '')'' @ [CHR 0x0A]
                @ ''func (n *'' @ implName @ '') '' @ methodName @ ''() {'' @ [CHR 0x0A]
                @ [CHR 0x09] @ ''// TODO: Implement '' @ methodName @ '' (Level '' @ showInt level @ '')'' @ [CHR 0x0A]
                @ ''}'')"
    by (simp add: generateMethodImplementation_def Let_def)
qed

theorem unparseable_signature_witness:
  "CHR ''('' \<notin> set ''io.Reader''
   \<and> generateMethodImplementation ''io.Reader'' ''NoOpX'' 1 = []
   \<and> CHR ''('' \<in> set ''Foo(a int''
   \<and> findParamEnd 0 0 (tl (dropWhile (\<lambda>x. x \<noteq> CHR ''('') ''Foo(a int'')) = None
   \<and> generateMethodImplementation ''Foo(a int'' ''NoOpX'' 1
       = ''// Foo is a no-op implementation (Level 1)'' @ [CHR 0x0A]
         @ ''func (n *NoOpX) Foo() {'' @ [CHR 0x0A]
         @ [CHR 0x09] @ ''// TODO: Implement Foo (Level 1)'' @ [CHR 0x0A] @ ''}''"
proof -
  have a: "CHR ''('' \<notin> set ''io.Reader''" by simp
  have b: "CHR ''('' \<in> set ''Foo(a int''
     \<and> findParamEnd 0 0 (tl (dropWhile (\<lambda>x. x \<noteq> CHR ''('') ''Foo(a int'')) = None" by simp
  have n: "TrimSpace ''Foo'' = ''Foo''" by code_simp
  have s: "showInt 1 = ''1''" by code_simp
  from unparseable_signature [of "''io.Reader''" "''NoOpX''" 1] a
  have 1: "generateMethodImplementation ''io.Reader'' ''NoOpX'' 1 = []" by blast
  from unparseable_signature [of "''Foo(a int''" "''NoOpX''" 1] b
  have 2: "generateMethodImplementation ''Foo(a int'' ''NoOpX'' 1
        = (let methodName = TrimSpace (takeWhile (\<lambda>x. x \<noteq> CHR ''('') ''Foo(a int'') in
           if methodName = [] then []
           else ''// '' @ methodName @ '' is a no-op implementation (Level '' @ showInt 1 @ '')'' @ [CHR 0x0A]
                @ ''func (n *'' @ ''NoOpX'' @ '') '' @ methodName @ ''() {'' @ [CHR 0x0A]
                @ [CHR 0x09] @ ''// TODO: Implement '' @ methodName @ '' (Level '' @ showInt 1 @ '')'' @ [CHR 0x0A]
                @ ''}'')" by blast
  show ?thesis using a b 1 2 n s by simp
qed

section \<open>Maps\<close>

lemma mapGet_fmupd: "mapGet z (fmupd k v m) k' = (if k = k' then v else mapGet z m k')"
  by (simp add: mapGet_def)

lemma fmlookup_mapGet:
  "fmlookup m k = (if k \<in> fmdom' m then Some (mapGet z m k) else None)"
  by (auto simp: mapGet_def fmlookup_dom'_iff split: option.splits)

section \<open>The item map\<close>

lemma buildAllItems_snoc:
  "buildAllItems nm (xs @ [x])
   = (if nm x \<noteq> [] then fmupd (nm x) x (buildAllItems nm xs) else buildAllItems nm xs)"
  by (simp add: buildAllItems_def Let_def)

lemma buildAllItems_Nil: "buildAllItems nm [] = fmempty"
  by (simp add: buildAllItems_def)

lemma buildAllItems_lookup:
  "fmlookup (buildAllItems nm items) n = Some x \<Longrightarrow> x \<in> set items \<and> nm x = n \<and> n \<noteq> []"
proof (induction items rule: rev_induct)
  case Nil
  then show ?case by (simp add: buildAllItems_Nil)
next
  case (snoc y ys)
  then show ?case by (auto simp: buildAllItems_snoc split: if_splits)
qed

lemma buildAllItems_dom:
  "fmdom' (buildAllItems nm items) = {n \<in> nm ` set items. n \<noteq> []}"
proof (induction items rule: rev_induct)
  case Nil
  then show ?case by (simp add: buildAllItems_Nil)
next
  case (snoc y ys)
  then show ?case by (auto simp: buildAllItems_snoc)
qed


section \<open>The graph\<close>

lemma initNodes_snoc:
  "initNodes (ks @ [k]) = (fmupd k [] (fst (initNodes ks)), fmupd k 0 (snd (initNodes ks)))"
  by (simp add: initNodes_def case_prod_beta)

lemma initNodes_graph:
  "fmlookup (fst (initNodes ks)) n = (if n \<in> set ks then Some [] else None)"
proof (induction ks rule: rev_induct)
  case Nil
  then show ?case by (simp add: initNodes_def)
next
  case (snoc k ks)
  then show ?case by (simp add: initNodes_snoc)
qed

lemma initNodes_inDegree:
  "fmlookup (snd (initNodes ks)) n = (if n \<in> set ks then Some 0 else None)"
proof (induction ks rule: rev_induct)
  case Nil
  then show ?case by (simp add: initNodes_def)
next
  case (snoc k ks)
  then show ?case by (simp add: initNodes_snoc)
qed

lemma addEdge_simp:
  "addEdge M n dep (g, d) =
     (if dep |\<in>| fmdom M
      then (fmupd dep (mapGet [] g dep @ [n]) g, fmupd n (mapGet 0 d n + 1) d)
      else (g, d))"
  by (simp add: addEdge_def)

lemma fold_addEdge:
  assumes "fold (addEdge M n) ds (g, d) = (g', d')"
  shows "mapGet [] g' a
           = mapGet [] g a @ replicate (count_list (filter (\<lambda>dep. dep |\<in>| fmdom M) ds) a) n"
    and "mapGet 0 d' m
           = mapGet 0 d m + (if m = n then int (length (filter (\<lambda>dep. dep |\<in>| fmdom M) ds)) else 0)"
    and "fmdom' d' = fmdom' d \<union> (if filter (\<lambda>dep. dep |\<in>| fmdom M) ds = [] then {} else {n})"
  using assms
proof (induction ds arbitrary: g d)
  case Nil
  { case 1 then show ?case by simp }
  { case 2 then show ?case by simp }
  { case 3 then show ?case by simp }
next
  case (Cons dep ds)
  { case 1
    then show ?case
      using Cons.IH(1)[of "fst (addEdge M n dep (g, d))" "snd (addEdge M n dep (g, d))"]
      by (auto simp: addEdge_simp mapGet_fmupd replicate_app_Cons_same) }
  { case 2
    then show ?case
      using Cons.IH(2)[of "fst (addEdge M n dep (g, d))" "snd (addEdge M n dep (g, d))"]
      by (auto simp: addEdge_simp mapGet_fmupd) }
  { case 3
    then show ?case
      using Cons.IH(3)[of "fst (addEdge M n dep (g, d))" "snd (addEdge M n dep (g, d))"]
      by (auto simp: addEdge_simp split: if_splits) }
qed

lemma count_list_replicate: "count_list (replicate k x) y = (if x = y then k else 0)"
  by (induction k) auto

lemma buildEdges_Nil: "buildEdges ex M [] gd = gd"
  by (simp add: buildEdges_def)

lemma buildEdges_Cons: "buildEdges ex M (k # ks) gd = buildEdges ex M ks (edgeStep ex M k gd)"
  by (simp add: buildEdges_def edgeStep_def)

lemma edgeStep_props:
  assumes "edgeStep ex M n (g, d) = (g', d')"
  shows "mapGet [] g' a = mapGet [] g a @ replicate (count_list (presentDeps ex M n) a) n"
    and "mapGet 0 d' m = mapGet 0 d m + (if m = n then int (length (presentDeps ex M n)) else 0)"
    and "fmdom' d' = fmdom' d \<union> (if presentDeps ex M n = [] then {} else {n})"
proof -
  show "mapGet [] g' a = mapGet [] g a @ replicate (count_list (presentDeps ex M n) a) n"
  proof (cases "fmlookup M n")
    case None
    with assms show ?thesis by (simp add: edgeStep_def presentDeps_def)
  next
    case (Some item)
    with assms have "fold (addEdge M n) (ex item) (g, d) = (g', d')" by (simp add: edgeStep_def)
    from fold_addEdge(1)[OF this] Some show ?thesis by (simp add: presentDeps_def)
  qed
  show "mapGet 0 d' m = mapGet 0 d m + (if m = n then int (length (presentDeps ex M n)) else 0)"
  proof (cases "fmlookup M n")
    case None
    with assms show ?thesis by (simp add: edgeStep_def presentDeps_def)
  next
    case (Some item)
    with assms have "fold (addEdge M n) (ex item) (g, d) = (g', d')" by (simp add: edgeStep_def)
    from fold_addEdge(2)[OF this] Some show ?thesis by (simp add: presentDeps_def)
  qed
  show "fmdom' d' = fmdom' d \<union> (if presentDeps ex M n = [] then {} else {n})"
  proof (cases "fmlookup M n")
    case None
    with assms show ?thesis by (simp add: edgeStep_def presentDeps_def)
  next
    case (Some item)
    with assms have "fold (addEdge M n) (ex item) (g, d) = (g', d')" by (simp add: edgeStep_def)
    from fold_addEdge(3)[OF this] Some show ?thesis by (simp add: presentDeps_def)
  qed
qed

lemma buildEdges_props:
  assumes "buildEdges ex M ks (g, d) = (g', d')" and "distinct ks"
  shows "count_list (mapGet [] g' a) n
           = count_list (mapGet [] g a) n
             + (if n \<in> set ks then count_list (presentDeps ex M n) a else 0)"
    and "mapGet 0 d' m
           = mapGet 0 d m + (if m \<in> set ks then int (length (presentDeps ex M m)) else 0)"
    and "fmdom' d' = fmdom' d \<union> {k \<in> set ks. presentDeps ex M k \<noteq> []}"
  using assms
proof (induction ks arbitrary: g d)
  case Nil
  { case 1 then show ?case by (simp add: buildEdges_Nil) }
  { case 2 then show ?case by (simp add: buildEdges_Nil) }
  { case 3 then show ?case by (simp add: buildEdges_Nil) }
next
  case (Cons k ks)
  { case 1
    obtain g1 d1 where s: "edgeStep ex M k (g, d) = (g1, d1)" by (cases "edgeStep ex M k (g, d)")
    from 1 have b: "buildEdges ex M ks (g1, d1) = (g', d')" and dk: "distinct ks" and kn: "k \<notin> set ks"
      by (simp_all add: buildEdges_Cons s)
    from Cons.IH(1)[OF b dk] edgeStep_props(1)[OF s, of a] kn show ?case
      by (auto simp: count_list_replicate) }
  { case 2
    obtain g1 d1 where s: "edgeStep ex M k (g, d) = (g1, d1)" by (cases "edgeStep ex M k (g, d)")
    from 2 have b: "buildEdges ex M ks (g1, d1) = (g', d')" and dk: "distinct ks" and kn: "k \<notin> set ks"
      by (simp_all add: buildEdges_Cons s)
    from Cons.IH(2)[OF b dk] edgeStep_props(2)[OF s, of m] kn show ?case by auto }
  { case 3
    obtain g1 d1 where s: "edgeStep ex M k (g, d) = (g1, d1)" by (cases "edgeStep ex M k (g, d)")
    from 3 have b: "buildEdges ex M ks (g1, d1) = (g', d')" and dk: "distinct ks" and kn: "k \<notin> set ks"
      by (simp_all add: buildEdges_Cons s)
    from Cons.IH(3)[OF b dk] edgeStep_props(3)[OF s] show ?case by auto }
qed

section \<open>Kahn's loop\<close>

lemma releaseDependent_simp:
  "releaseDependent x (d, q) =
     (if mapGet 0 d x - 1 = 0 then (fmupd x (mapGet 0 d x - 1) d, q @ [x])
      else (fmupd x (mapGet 0 d x - 1) d, q))"
  by (simp add: releaseDependent_def Let_def mapGet_fmupd)

lemma count_list_pos_iff: "0 < count_list xs x \<longleftrightarrow> x \<in> set xs"
  using count_list_0_iff[of xs x] by auto

lemma fold_releaseDependent:
  assumes "fold releaseDependent xs (d, q) = (d', q')"
  shows "mapGet 0 d' n = mapGet 0 d n - int (count_list xs n)"
    and "set q' = set q \<union> {n \<in> set xs. 1 \<le> mapGet 0 d n \<and> mapGet 0 d n \<le> int (count_list xs n)}"
proof -
  show "mapGet 0 d' n = mapGet 0 d n - int (count_list xs n)"
    using assms
  proof (induction xs arbitrary: d q)
    case Nil
    then show ?case by simp
  next
    case (Cons x xs)
    obtain d1 q1 where s: "releaseDependent x (d, q) = (d1, q1)"
      by (cases "releaseDependent x (d, q)")
    with Cons.prems have "fold releaseDependent xs (d1, q1) = (d', q')" by simp
    from Cons.IH[OF this] have "mapGet 0 d' n = mapGet 0 d1 n - int (count_list xs n)" .
    moreover have "mapGet 0 d1 n = (if x = n then mapGet 0 d n - 1 else mapGet 0 d n)"
      using s by (auto simp: releaseDependent_simp mapGet_fmupd split: if_splits)
    ultimately show ?case by simp
  qed
  show "set q' = set q \<union> {n \<in> set xs. 1 \<le> mapGet 0 d n \<and> mapGet 0 d n \<le> int (count_list xs n)}"
    using assms
  proof (induction xs arbitrary: d q)
    case Nil
    then show ?case by simp
  next
    case (Cons x xs)
    obtain d1 q1 where s: "releaseDependent x (d, q) = (d1, q1)"
      by (cases "releaseDependent x (d, q)")
    with Cons.prems have "fold releaseDependent xs (d1, q1) = (d', q')" by simp
    from Cons.IH[OF this]
    have IH: "set q' = set q1 \<union> {n \<in> set xs. 1 \<le> mapGet 0 d1 n \<and> mapGet 0 d1 n \<le> int (count_list xs n)}" .
    have d1: "\<And>n. mapGet 0 d1 n = (if x = n then mapGet 0 d n - 1 else mapGet 0 d n)"
      using s by (auto simp: releaseDependent_simp mapGet_fmupd split: if_splits)
    have q1: "set q1 = (if mapGet 0 d x = 1 then insert x (set q) else set q)"
      using s by (auto simp: releaseDependent_simp split: if_splits)
    have cx: "x \<in> set xs \<longleftrightarrow> 1 \<le> int (count_list xs x)"
      using count_list_pos_iff[of xs x] by auto
    show ?case
    proof (intro set_eqI iffI)
      fix n assume "n \<in> set q'"
      then show "n \<in> set q \<union> {n \<in> set (x # xs). 1 \<le> mapGet 0 d n \<and> mapGet 0 d n \<le> int (count_list (x # xs) n)}"
        unfolding IH q1 using d1[of n] by (auto split: if_splits)
    next
      fix n assume "n \<in> set q \<union> {n \<in> set (x # xs). 1 \<le> mapGet 0 d n \<and> mapGet 0 d n \<le> int (count_list (x # xs) n)}"
      then show "n \<in> set q'"
        unfolding IH q1 using d1[of n] cx by (auto split: if_splits)
    qed
  qed
qed

lemma filter_mark_length:
  assumes "\<not> P c"
  shows "int (length (filter (\<lambda>a. \<not> (a = c \<or> P a)) xs))
         = int (length (filter (\<lambda>a. \<not> P a) xs)) - int (count_list xs c)"
  using assms by (induction xs) auto

lemma kahnInv_iff:
  "kahnInv nm ex M (q, d, P, r) \<longleftrightarrow>
     (set q \<subseteq> fmdom' M
     \<and> (\<forall>n \<in> fmdom' M. mapGet 0 d n
           = int (length (filter (\<lambda>a. \<not> mapGet False P a) (presentDeps ex M n))))
     \<and> (\<forall>n \<in> fmdom' M. \<not> mapGet False P n \<and> mapGet 0 d n = 0 \<longrightarrow> n \<in> set q)
     \<and> (\<forall>n \<in> set q. mapGet 0 d n = 0)
     \<and> distinct (map nm r)
     \<and> set (map nm r) = {n. mapGet False P n}
     \<and> (\<forall>x \<in> set r. fmlookup M (nm x) = Some x)
     \<and> (\<forall>j < length r. \<forall>a \<in> set (presentDeps ex M (nm (r ! j))). \<exists>i < j. nm (r ! i) = a))"
  unfolding kahnInv_def by (simp only: prod.case)

lemma sort_hd_tl: "q \<noteq> [] \<Longrightarrow> sort q = hd (sort q) # tl (sort q)"
proof -
  assume "q \<noteq> []"
  then have "length (sort q) \<noteq> 0" by simp
  then have "sort q \<noteq> []" by (metis list.size(3))
  then show ?thesis by simp
qed

lemma kahnInv_skip:
  assumes inv: "kahnInv nm ex M (q, d, P, r)" and ne: "q \<noteq> []"
    and pc: "mapGet False P (hd (sort q))"
  shows "kahnInv nm ex M (tl (sort q), d, P, r)"
proof -
  let ?c = "hd (sort q)" and ?rest = "tl (sort q)"
  have sq: "sort q = ?c # ?rest" using ne by (rule sort_hd_tl)
  have setq: "set q = insert ?c (set ?rest)"
    using sq by (metis list.simps(15) set_sort)
  from inv have I1: "set q \<subseteq> fmdom' M"
    and I4: "\<And>n. n \<in> fmdom' M \<Longrightarrow> \<not> mapGet False P n \<Longrightarrow> mapGet 0 d n = 0 \<Longrightarrow> n \<in> set q"
    and I5: "\<And>n. n \<in> set q \<Longrightarrow> mapGet 0 d n = 0"
    and rest: "(\<forall>n \<in> fmdom' M. mapGet 0 d n
           = int (length (filter (\<lambda>a. \<not> mapGet False P a) (presentDeps ex M n))))
     \<and> distinct (map nm r)
     \<and> set (map nm r) = {n. mapGet False P n}
     \<and> (\<forall>x \<in> set r. fmlookup M (nm x) = Some x)
     \<and> (\<forall>j < length r. \<forall>a \<in> set (presentDeps ex M (nm (r ! j))). \<exists>i < j. nm (r ! i) = a)"
    unfolding kahnInv_iff by blast+
  have J1: "set ?rest \<subseteq> fmdom' M" using I1 setq by auto
  have J4: "\<forall>n \<in> fmdom' M. \<not> mapGet False P n \<and> mapGet 0 d n = 0 \<longrightarrow> n \<in> set ?rest"
  proof (intro ballI impI)
    fix n assume n: "n \<in> fmdom' M" and h: "\<not> mapGet False P n \<and> mapGet 0 d n = 0"
    then have "n \<in> set q" using I4 by blast
    moreover have "n \<noteq> ?c" using h pc by auto
    ultimately show "n \<in> set ?rest" using setq by auto
  qed
  have J5: "\<forall>n \<in> set ?rest. mapGet 0 d n = 0" using I5 setq by auto
  have "set ?rest \<subseteq> fmdom' M
     \<and> (\<forall>n \<in> fmdom' M. mapGet 0 d n
           = int (length (filter (\<lambda>a. \<not> mapGet False P a) (presentDeps ex M n))))
     \<and> (\<forall>n \<in> fmdom' M. \<not> mapGet False P n \<and> mapGet 0 d n = 0 \<longrightarrow> n \<in> set ?rest)
     \<and> (\<forall>n \<in> set ?rest. mapGet 0 d n = 0)
     \<and> distinct (map nm r)
     \<and> set (map nm r) = {n. mapGet False P n}
     \<and> (\<forall>x \<in> set r. fmlookup M (nm x) = Some x)
     \<and> (\<forall>j < length r. \<forall>a \<in> set (presentDeps ex M (nm (r ! j))). \<exists>i < j. nm (r ! i) = a)"
    using J1 J4 J5 rest by blast
  then show ?thesis by (rule kahnInv_iff[THEN iffD2])
qed

lemma kahnInv_process:
  assumes inv: "kahnInv nm ex M (q, d, P, r)" and ne: "q \<noteq> []"
    and gr: "graphOf ex M g" and nmM: "namedMap nm M"
    and pc: "\<not> mapGet False P (hd (sort q))"
    and fd: "fold releaseDependent (mapGet [] g (hd (sort q))) (d, tl (sort q)) = (d', q')"
  shows "\<exists>x. fmlookup M (hd (sort q)) = Some x
             \<and> kahnInv nm ex M (q', d', fmupd (hd (sort q)) True P, r @ [x])"
proof -
  let ?c = "hd (sort q)" and ?rest = "tl (sort q)"
  let ?adj = "mapGet [] g ?c"
  let ?P' = "fmupd ?c True P"
  let ?K = "fmdom' M"
  have sq: "sort q = ?c # ?rest" using ne by (rule sort_hd_tl)
  have setq: "set q = insert ?c (set ?rest)"
    using sq by (metis list.simps(15) set_sort)
  from inv have I1: "set q \<subseteq> ?K"
    and I3: "\<And>n. n \<in> ?K \<Longrightarrow> mapGet 0 d n
           = int (length (filter (\<lambda>a. \<not> mapGet False P a) (presentDeps ex M n)))"
    and I4: "\<And>n. n \<in> ?K \<Longrightarrow> \<not> mapGet False P n \<Longrightarrow> mapGet 0 d n = 0 \<Longrightarrow> n \<in> set q"
    and I5: "\<And>n. n \<in> set q \<Longrightarrow> mapGet 0 d n = 0"
    and I6a: "distinct (map nm r)"
    and I6b: "set (map nm r) = {n. mapGet False P n}"
    and I6c: "\<And>x. x \<in> set r \<Longrightarrow> fmlookup M (nm x) = Some x"
    and I7: "\<And>j a. j < length r \<Longrightarrow> a \<in> set (presentDeps ex M (nm (r ! j)))
               \<Longrightarrow> \<exists>i < j. nm (r ! i) = a"
    unfolding kahnInv_iff by blast+
  have cK: "?c \<in> ?K" using I1 setq by auto
  then obtain x where x: "fmlookup M ?c = Some x" by (auto simp: fmlookup_dom'_iff)
  with nmM have nx: "nm x = ?c" by (auto simp: namedMap_def)
  have P': "\<And>n. mapGet False ?P' n \<longleftrightarrow> (n = ?c \<or> mapGet False P n)"
    by (auto simp: mapGet_fmupd)
  have cnt: "\<And>n. int (count_list ?adj n)
                 = (if n \<in> ?K then int (count_list (presentDeps ex M n) ?c) else 0)"
    using gr by (simp add: graphOf_def)
  have adjK: "set ?adj \<subseteq> ?K"
  proof
    fix n assume "n \<in> set ?adj"
    then have "0 < count_list ?adj n" by (simp add: count_list_pos_iff)
    with cnt[of n] show "n \<in> ?K" by (auto split: if_splits)
  qed
  have d': "\<And>n. mapGet 0 d' n = mapGet 0 d n - int (count_list ?adj n)"
    using fold_releaseDependent(1)[OF fd] .
  have q': "set q' = set ?rest \<union> {n \<in> set ?adj. 1 \<le> mapGet 0 d n \<and> mapGet 0 d n \<le> int (count_list ?adj n)}"
    using fold_releaseDependent(2)[OF fd] .
  have J3: "\<And>n. n \<in> ?K \<Longrightarrow> mapGet 0 d' n
           = int (length (filter (\<lambda>a. \<not> mapGet False ?P' a) (presentDeps ex M n)))"
  proof -
    fix n assume n: "n \<in> ?K"
    have "mapGet 0 d' n = int (length (filter (\<lambda>a. \<not> mapGet False P a) (presentDeps ex M n)))
                          - int (count_list (presentDeps ex M n) ?c)"
      using d'[of n] I3[OF n] cnt[of n] n by simp
    also have "\<dots> = int (length (filter (\<lambda>a. \<not> (a = ?c \<or> mapGet False P a)) (presentDeps ex M n)))"
      using filter_mark_length[where P = "mapGet False P" and c = ?c and xs = "presentDeps ex M n"] pc
      by simp
    finally show "mapGet 0 d' n
           = int (length (filter (\<lambda>a. \<not> mapGet False ?P' a) (presentDeps ex M n)))"
      by (simp add: P')
  qed
  have J1: "set q' \<subseteq> ?K" using q' adjK I1 setq by auto
  have J4: "\<And>n. n \<in> ?K \<Longrightarrow> \<not> mapGet False ?P' n \<Longrightarrow> mapGet 0 d' n = 0 \<Longrightarrow> n \<in> set q'"
  proof -
    fix n assume n: "n \<in> ?K" and np: "\<not> mapGet False ?P' n" and z: "mapGet 0 d' n = 0"
    from np have nc: "n \<noteq> ?c" and npP: "\<not> mapGet False P n" by (auto simp: P')
    show "n \<in> set q'"
    proof (cases "mapGet 0 d n = 0")
      case True
      from I4[OF n npP True] nc setq have "n \<in> set ?rest" by auto
      then show ?thesis using q' by simp
    next
      case False
      moreover have "0 \<le> mapGet 0 d n" using I3[OF n] by simp
      ultimately have ge: "1 \<le> mapGet 0 d n" by simp
      from z d'[of n] have eq: "mapGet 0 d n = int (count_list ?adj n)" by simp
      with ge have "0 < count_list ?adj n" by simp
      then have "n \<in> set ?adj" by (simp add: count_list_pos_iff)
      then show ?thesis using q' ge eq by simp
    qed
  qed
  have J5: "\<And>n. n \<in> set q' \<Longrightarrow> mapGet 0 d' n = 0"
  proof -
    fix n assume n: "n \<in> set q'"
    then have nK: "n \<in> ?K" using J1 by auto
    have nonneg: "0 \<le> mapGet 0 d' n" using J3[OF nK] by simp
    from n q' consider "n \<in> set ?rest"
      | "1 \<le> mapGet 0 d n \<and> mapGet 0 d n \<le> int (count_list ?adj n)" by auto
    then show "mapGet 0 d' n = 0"
    proof cases
      case 1
      then have "mapGet 0 d n = 0" using I5 setq by auto
      with d'[of n] nonneg show ?thesis by simp
    next
      case 2
      with d'[of n] nonneg show ?thesis by simp
    qed
  qed
  have cnotin: "?c \<notin> set (map nm r)" using I6b pc by simp
  have J6a: "distinct (map nm (r @ [x]))" using I6a cnotin nx by simp
  have J6b: "set (map nm (r @ [x])) = {n. mapGet False ?P' n}"
    using I6b nx by (auto simp: P')
  have J6c: "\<And>y. y \<in> set (r @ [x]) \<Longrightarrow> fmlookup M (nm y) = Some y"
    using I6c x nx by auto
  have J7: "\<And>j a. j < length (r @ [x]) \<Longrightarrow> a \<in> set (presentDeps ex M (nm ((r @ [x]) ! j)))
               \<Longrightarrow> \<exists>i < j. nm ((r @ [x]) ! i) = a"
  proof -
    fix j a assume j: "j < length (r @ [x])"
      and a: "a \<in> set (presentDeps ex M (nm ((r @ [x]) ! j)))"
    show "\<exists>i < j. nm ((r @ [x]) ! i) = a"
    proof (cases "j < length r")
      case True
      with a have "a \<in> set (presentDeps ex M (nm (r ! j)))" by (simp add: nth_append)
      from I7[OF True this] obtain i where i: "i < j" "nm (r ! i) = a" by blast
      from i True have "(r @ [x]) ! i = r ! i" by (simp add: nth_append)
      with i show ?thesis by auto
    next
      case False
      with j have jl: "j = length r" by simp
      with a nx have ac: "a \<in> set (presentDeps ex M ?c)" by simp
      have "mapGet 0 d ?c = 0" using I5 setq by auto
      with I3[OF cK] have "filter (\<lambda>a. \<not> mapGet False P a) (presentDeps ex M ?c) = []" by simp
      with ac have "mapGet False P a" by (auto simp: filter_empty_conv)
      with I6b have "a \<in> set (map nm r)" by simp
      then obtain i where i: "i < length r" "map nm r ! i = a"
        unfolding in_set_conv_nth by auto
      then have "nm (r ! i) = a" by simp
      moreover from i have "(r @ [x]) ! i = r ! i" by (simp add: nth_append)
      ultimately show ?thesis using i(1) jl by auto
    qed
  qed
  have "set q' \<subseteq> fmdom' M
     \<and> (\<forall>n \<in> fmdom' M. mapGet 0 d' n
           = int (length (filter (\<lambda>a. \<not> mapGet False ?P' a) (presentDeps ex M n))))
     \<and> (\<forall>n \<in> fmdom' M. \<not> mapGet False ?P' n \<and> mapGet 0 d' n = 0 \<longrightarrow> n \<in> set q')
     \<and> (\<forall>n \<in> set q'. mapGet 0 d' n = 0)
     \<and> distinct (map nm (r @ [x]))
     \<and> set (map nm (r @ [x])) = {n. mapGet False ?P' n}
     \<and> (\<forall>y \<in> set (r @ [x]). fmlookup M (nm y) = Some y)
     \<and> (\<forall>j < length (r @ [x]). \<forall>a \<in> set (presentDeps ex M (nm ((r @ [x]) ! j))).
            \<exists>i < j. nm ((r @ [x]) ! i) = a)"
    using J1 J3 J4 J5 J6a J6b J6c J7 by blast
  then have "kahnInv nm ex M (q', d', ?P', r @ [x])"
    by (rule kahnInv_iff[THEN iffD2])
  with x show ?thesis by blast
qed

lemma kahnLoop_Nil: "kahnLoop M g ([], d, P, r) = (P, r)"
  by (subst kahnLoop.simps) simp

lemma kahnLoop_skip:
  assumes "q \<noteq> []" and "mapGet False P (hd (sort q))"
  shows "kahnLoop M g (q, d, P, r) = kahnLoop M g (tl (sort q), d, P, r)"
  using assms by (subst kahnLoop.simps) (simp add: Let_def)

lemma kahnLoop_process:
  assumes "q \<noteq> []" and "\<not> mapGet False P (hd (sort q))"
    and "fold releaseDependent (mapGet [] g (hd (sort q))) (d, tl (sort q)) = (d', q')"
  shows "kahnLoop M g (q, d, P, r)
         = kahnLoop M g (q', d', fmupd (hd (sort q)) True P,
                         (case fmlookup M (hd (sort q)) of
                            Some item \<Rightarrow> r @ [item] | None \<Rightarrow> r))"
  using assms by (subst kahnLoop.simps) (simp add: Let_def)

lemma kahnLoop_inv:
  assumes gr: "graphOf ex M g" and nmM: "namedMap nm M"
  shows "kahnInv nm ex M s \<Longrightarrow> kahnLoop M g s = (P', r')
         \<Longrightarrow> \<exists>d'. kahnInv nm ex M ([], d', P', r')"
  using gr nmM
proof (induction M g s rule: kahnLoop.induct)
  case (1 M g q d P r)
  show ?case
  proof (cases "q = []")
    case True
    with "1.prems" have "P' = P" "r' = r" by (simp_all add: kahnLoop_Nil)
    with "1.prems"(1) True show ?thesis by blast
  next
    case ne: False
    show ?thesis
    proof (cases "mapGet False P (hd (sort q))")
      case True
      have inv': "kahnInv nm ex M (tl (sort q), d, P, r)"
        using kahnInv_skip[OF "1.prems"(1) ne True] .
      have eq: "kahnLoop M g (tl (sort q), d, P, r) = (P', r')"
        using "1.prems"(2) unfolding kahnLoop_skip[OF ne True] .
      show ?thesis
        using "1.IH"(1)[OF ne refl refl refl True inv' eq "1.prems"(3) "1.prems"(4)] .
    next
      case False
      obtain d1 q1 where fd:
        "fold releaseDependent (mapGet [] g (hd (sort q))) (d, tl (sort q)) = (d1, q1)"
        by (cases "fold releaseDependent (mapGet [] g (hd (sort q))) (d, tl (sort q))")
      from kahnInv_process[OF "1.prems"(1) ne "1.prems"(3) "1.prems"(4) False fd]
      obtain x where x: "fmlookup M (hd (sort q)) = Some x"
        and inv': "kahnInv nm ex M (q1, d1, fmupd (hd (sort q)) True P, r @ [x])" by blast
      have eq: "kahnLoop M g (q1, d1, fmupd (hd (sort q)) True P, r @ [x]) = (P', r')"
        using "1.prems"(2) unfolding kahnLoop_process[OF ne False fd] x by simp
      have r_eq: "(case fmlookup M (hd (sort q)) of None \<Rightarrow> r | Some item \<Rightarrow> r @ [item]) = r @ [x]"
        using x by simp
      show ?thesis
        using "1.IH"(2)[OF ne refl refl refl False refl refl refl fd[symmetric]]
          inv' eq "1.prems"(3) "1.prems"(4) unfolding r_eq by blast
    qed
  qed
qed

section \<open>The whole resolver\<close>

lemma namedMap_buildAllItems: "namedMap nm (buildAllItems nm items)"
  unfolding namedMap_def using buildAllItems_lookup by fastforce

lemma mapGet_initNodes_graph: "mapGet [] (fst (initNodes ks)) a = []"
  by (simp add: mapGet_def initNodes_graph)

lemma mapGet_initNodes_inDegree: "mapGet 0 (snd (initNodes ks)) n = 0"
  by (simp add: mapGet_def initNodes_inDegree)

lemma fmdom'_initNodes_inDegree: "fmdom' (snd (initNodes ks)) = set ks"
  by (auto simp: fmlookup_dom'_iff initNodes_inDegree split: if_splits)

lemma mapGet_fmempty: "mapGet z fmempty k = z"
  by (simp add: mapGet_def)

lemma initial_state:
  assumes o1: "rangeOrder ks1 M" and o2: "rangeOrder ks2 M" and o3: "rangeOrder ks3 M"
    and be: "buildEdges ex M ks2 (initNodes ks1) = (g, d)"
  shows "graphOf ex M g" and "kahnInv nm ex M (initialQueue d ks3, d, fmempty, [])"
proof -
  from o1 o2 o3 have s1: "set ks1 = fmdom' M" and s2: "set ks2 = fmdom' M"
    and s3: "set ks3 = fmdom' M" and d2: "distinct ks2"
    by (simp_all add: rangeOrder_def)
  have be': "buildEdges ex M ks2 (fst (initNodes ks1), snd (initNodes ks1)) = (g, d)"
    using be by simp
  show "graphOf ex M g"
    unfolding graphOf_def
    using buildEdges_props(1)[OF be' d2] by (simp add: mapGet_initNodes_graph s2)
  have deg: "\<And>n. mapGet 0 d n = (if n \<in> fmdom' M then int (length (presentDeps ex M n)) else 0)"
    using buildEdges_props(2)[OF be' d2] by (simp add: mapGet_initNodes_inDegree s2)
  have dom: "fmdom' M \<subseteq> fmdom' d"
    using buildEdges_props(3)[OF be' d2] by (auto simp: fmdom'_initNodes_inDegree s1)
  have q0: "\<And>n. n \<in> set (initialQueue d ks3) \<longleftrightarrow> n \<in> fmdom' M \<and> mapGet 0 d n = 0"
  proof -
    fix n
    show "n \<in> set (initialQueue d ks3) \<longleftrightarrow> n \<in> fmdom' M \<and> mapGet 0 d n = 0"
    proof (cases "n \<in> fmdom' M")
      case True
      then have "n \<in> fmdom' d" using dom by auto
      then have "fmlookup d n = Some (mapGet 0 d n)" by (simp add: fmlookup_mapGet[of d n 0])
      then show ?thesis using True by (simp add: initialQueue_def s3)
    next
      case False
      then show ?thesis by (simp add: initialQueue_def s3)
    qed
  qed
  have "set (initialQueue d ks3) \<subseteq> fmdom' M
     \<and> (\<forall>n \<in> fmdom' M. mapGet 0 d n
           = int (length (filter (\<lambda>a. \<not> mapGet False fmempty a) (presentDeps ex M n))))
     \<and> (\<forall>n \<in> fmdom' M. \<not> mapGet False fmempty n \<and> mapGet 0 d n = 0 \<longrightarrow> n \<in> set (initialQueue d ks3))
     \<and> (\<forall>n \<in> set (initialQueue d ks3). mapGet 0 d n = 0)
     \<and> distinct (map nm [])
     \<and> set (map nm []) = {n. mapGet False fmempty n}
     \<and> (\<forall>x \<in> set []. fmlookup M (nm x) = Some x)
     \<and> (\<forall>j < length []. \<forall>a \<in> set (presentDeps ex M (nm ([] ! j))). \<exists>i < j. nm ([] ! i) = a)"
    using q0 deg by (auto simp: mapGet_fmempty)
  then show "kahnInv nm ex M (initialQueue d ks3, d, fmempty, [])"
    by (rule kahnInv_iff[THEN iffD2])
qed

lemma resolve_structure:
  assumes o1: "rangeOrder ks1 (buildAllItems nm items)"
    and o2: "rangeOrder ks2 (buildAllItems nm items)"
    and o3: "rangeOrder ks3 (buildAllItems nm items)"
  shows "\<exists>P r d. ResolveDependencies ex nm ks1 ks2 ks3 items
                   = r @ filter (\<lambda>item. \<not> mapGet False P (nm item)) items
               \<and> kahnInv nm ex (buildAllItems nm items) ([], d, P, r)"
proof -
  let ?M = "buildAllItems nm items"
  obtain g d where be: "buildEdges ex ?M ks2 (initNodes ks1) = (g, d)"
    by (cases "buildEdges ex ?M ks2 (initNodes ks1)")
  obtain P r where kl: "kahnLoop ?M g (initialQueue d ks3, d, fmempty, []) = (P, r)"
    by (cases "kahnLoop ?M g (initialQueue d ks3, d, fmempty, [])")
  have res: "ResolveDependencies ex nm ks1 ks2 ks3 items
             = r @ filter (\<lambda>item. \<not> mapGet False P (nm item)) items"
    by (simp add: ResolveDependencies_def Let_def be kl)
  from initial_state[OF o1 o2 o3 be]
  have gr: "graphOf ex ?M g" and inv0: "kahnInv nm ex ?M (initialQueue d ks3, d, fmempty, [])"
    by blast+
  from kahnLoop_inv[OF gr namedMap_buildAllItems inv0 kl]
  obtain d' where "kahnInv nm ex ?M ([], d', P, r)" by blast
  with res show ?thesis by blast
qed

lemma dependencyEdges_presentDeps:
  "(a, b) \<in> dependencyEdges ex M \<longleftrightarrow> a \<in> set (presentDeps ex M b)"
proof (cases "fmlookup M b")
  case None
  then show ?thesis by (simp add: dependencyEdges_def presentDeps_def)
next
  case (Some item)
  then show ?thesis by (auto simp: dependencyEdges_def presentDeps_def fmdom'_alt_def)
qed

lemma dependencyEdges_dom:
  "(a, b) \<in> dependencyEdges ex M \<Longrightarrow> a \<in> fmdom' M \<and> b \<in> fmdom' M"
  by (auto simp: dependencyEdges_def fmlookup_dom'_iff)

text \<open>When the loop has ended, a name that is not processed has a dependency that is not.\<close>

lemma unprocessed_has_unprocessed_dep:
  assumes inv: "kahnInv nm ex M ([], d, P, r)" and n: "n \<in> fmdom' M" and np: "\<not> mapGet False P n"
  shows "\<exists>a. (a, n) \<in> dependencyEdges ex M \<and> \<not> mapGet False P a"
proof -
  from inv have I3: "mapGet 0 d n
           = int (length (filter (\<lambda>a. \<not> mapGet False P a) (presentDeps ex M n)))"
    and I4: "\<not> mapGet False P n \<and> mapGet 0 d n = 0 \<longrightarrow> n \<in> set []"
    unfolding kahnInv_iff using n by blast+
  from I4 np have "mapGet 0 d n \<noteq> 0" by auto
  with I3 have "filter (\<lambda>a. \<not> mapGet False P a) (presentDeps ex M n) \<noteq> []" by auto
  then obtain a where "a \<in> set (presentDeps ex M n)" "\<not> mapGet False P a"
    by (auto simp: filter_empty_conv)
  then show ?thesis by (auto simp: dependencyEdges_presentDeps)
qed

lemma acyclic_all_processed:
  assumes inv: "kahnInv nm ex M ([], d, P, r)" and ac: "acyclic (dependencyEdges ex M)"
    and n: "n \<in> fmdom' M"
  shows "mapGet False P n"
proof (rule ccontr)
  assume np: "\<not> mapGet False P n"
  let ?U = "{k \<in> fmdom' M. \<not> mapGet False P k}"
  let ?R = "{(a, b) \<in> dependencyEdges ex M. a \<in> ?U \<and> b \<in> ?U}"
  have "?R \<subseteq> ?U \<times> ?U" by auto
  moreover have "finite (?U \<times> ?U)" by simp
  ultimately have fin: "finite ?R" by (rule finite_subset)
  have "acyclic ?R" by (rule acyclic_subset[OF ac]) auto
  with fin have "wf ?R" by (rule finite_acyclic_wf)
  moreover have "n \<in> ?U" using n np by simp
  ultimately obtain z where z: "z \<in> ?U" and zmin: "\<And>y. (y, z) \<in> ?R \<Longrightarrow> y \<notin> ?U"
    by (rule wfE_min) blast
  from z have zK: "z \<in> fmdom' M" and zn: "\<not> mapGet False P z" by auto
  from unprocessed_has_unprocessed_dep[OF inv zK zn]
  obtain a where a: "(a, z) \<in> dependencyEdges ex M" "\<not> mapGet False P a" by blast
  then have "a \<in> ?U" using dependencyEdges_dom[OF a(1)] by simp
  with a z have "(a, z) \<in> ?R" by simp
  from zmin[OF this] \<open>a \<in> ?U\<close> show False by blast
qed

text \<open>The emitted items list each processed name once, and a dependency comes first.\<close>

lemma emitted_edge_order:
  assumes inv: "kahnInv nm ex M ([], d, P, r)"
    and e: "(a, b) \<in> dependencyEdges ex M" and j: "j < length r" and b: "nm (r ! j) = b"
  shows "\<exists>i < j. nm (r ! i) = a"
proof -
  from inv have I7: "\<forall>j < length r. \<forall>a \<in> set (presentDeps ex M (nm (r ! j))). \<exists>i < j. nm (r ! i) = a"
    unfolding kahnInv_iff by blast
  from e b have "a \<in> set (presentDeps ex M (nm (r ! j)))"
    by (simp add: dependencyEdges_presentDeps)
  with I7 j show ?thesis by blast
qed



lemma emitted_props:
  assumes inv: "kahnInv nm ex M ([], d, P, r)"
  shows "distinct (map nm r)" and "set (map nm r) = {n. mapGet False P n}"
    and "\<And>x. x \<in> set r \<Longrightarrow> fmlookup M (nm x) = Some x"
  using inv unfolding kahnInv_iff by blast+



text \<open>
  Claim C1. Let the dependency graph on the names registered in the item map be acyclic.
  Then in the sequence that \<^verbatim>\<open>ResolveDependencies\<close> returns, whenever the dependency
  list of the item at position \<open>j\<close> contains the name of the item at position \<open>i\<close>, and
  that item is present under its name (its name is not empty, so it is a key of the item
  map), the item at \<open>i\<close> comes before the item at \<open>j\<close>: \<open>i < j\<close>, and so no later.
  This holds for every order in which Go may range over the maps.
\<close>

theorem topological_order:
  assumes o1: "rangeOrder ks\<^sub>1 (buildAllItems getTypeName items)"
    and o2: "rangeOrder ks\<^sub>2 (buildAllItems getTypeName items)"
    and o3: "rangeOrder ks\<^sub>3 (buildAllItems getTypeName items)"
    and ac: "acyclic (dependencyEdges extractDependencies (buildAllItems getTypeName items))"
    and out: "out = ResolveDependencies extractDependencies getTypeName ks\<^sub>1 ks\<^sub>2 ks\<^sub>3 items"
    and i: "i < length out" and j: "j < length out"
    and present: "getTypeName (out ! i) \<noteq> []"
    and dep: "getTypeName (out ! i) \<in> set (extractDependencies (out ! j))"
  shows "i < j"
proof -
  let ?M = "buildAllItems getTypeName items"
  from resolve_structure[OF o1 o2 o3, of extractDependencies]
  obtain P r d where res: "out = r @ filter (\<lambda>item. \<not> mapGet False P (getTypeName item)) items"
    and inv: "kahnInv getTypeName extractDependencies ?M ([], d, P, r)"
    unfolding out by blast
  note em = emitted_props[OF inv]
  let ?tail = "filter (\<lambda>item. \<not> mapGet False P (getTypeName item)) items"
  have tail_unnamed: "\<And>x. x \<in> set ?tail \<Longrightarrow> getTypeName x = []"
  proof (rule ccontr)
    fix x assume x: "x \<in> set ?tail" and ne: "getTypeName x \<noteq> []"
    then have "getTypeName x \<in> fmdom' ?M" by (auto simp: buildAllItems_dom)
    from acyclic_all_processed[OF inv ac this] x show False by simp
  qed
  have il: "i < length r"
  proof (rule ccontr)
    assume "\<not> i < length r"
    then have ge: "length r \<le> i" by simp
    with i res have lt: "i - length r < length ?tail" by simp
    from ge res have "out ! i = ?tail ! (i - length r)" by (simp add: nth_append)
    with nth_mem[OF lt] have "out ! i \<in> set ?tail" by simp
    from tail_unnamed[OF this] present show False by simp
  qed
  then have oi: "out ! i = r ! i" using res by (simp add: nth_append)
  show ?thesis
  proof (cases "j < length r")
    case False
    with il show ?thesis by simp
  next
    case True
    then have oj: "out ! j = r ! j" using res by (simp add: nth_append)
    have "r ! i \<in> set r" "r ! j \<in> set r" using il True by simp_all
    then have li: "fmlookup ?M (getTypeName (r ! i)) = Some (r ! i)"
      and lj: "fmlookup ?M (getTypeName (r ! j)) = Some (r ! j)"
      using em(3) by blast+
    from li have "getTypeName (r ! i) \<in> fmdom' ?M" by (rule fmdom'I)
    with lj dep oi oj
    have "(getTypeName (r ! i), getTypeName (r ! j)) \<in> dependencyEdges extractDependencies ?M"
      by (auto simp: dependencyEdges_def)
    from emitted_edge_order[OF inv this True refl]
    obtain i' where i': "i' < j" "getTypeName (r ! i') = getTypeName (r ! i)" by blast
    from i' True il have "map getTypeName r ! i' = map getTypeName r ! i"
      "i' < length (map getTypeName r)" "i < length (map getTypeName r)" by simp_all
    then have "i' = i" using nth_eq_iff_index_eq[OF em(1), of i' i] by blast
    with i' show ?thesis by simp
  qed
qed

section \<open>The documented example: \<open>Reader\<close> and \<open>Writer\<close>\<close>

lemma readerDecl_deps: "Interface_ExtractDependencies readerDecl = [''Read'', ''p'']"
  by code_simp

lemma writerDecl_deps: "Interface_ExtractDependencies writerDecl = [''Write'', ''r'', ''Reader'', ''Close'']"
  by code_simp

lemma interface_names:
  "Interface_GetTypeName readerDecl = ''Reader''" "Interface_GetTypeName writerDecl = ''Writer''"
  by (simp_all add: Interface_GetTypeName_def readerDecl_def writerDecl_def)

lemma reader_writer_order:
  "rangeOrder [''Writer'', ''Reader''] (buildAllItems Interface_GetTypeName [writerDecl, readerDecl])"
  by (auto simp: rangeOrder_def buildAllItems_dom interface_names)

lemma reader_writer_edges:
  "dependencyEdges Interface_ExtractDependencies
     (buildAllItems Interface_GetTypeName [writerDecl, readerDecl]) \<subseteq> {(''Reader'', ''Writer'')}"
proof
  fix e assume e: "e \<in> dependencyEdges Interface_ExtractDependencies
     (buildAllItems Interface_GetTypeName [writerDecl, readerDecl])"
  obtain a b where ab: "e = (a, b)" by (cases e)
  from e ab obtain item where a: "a \<in> fmdom' (buildAllItems Interface_GetTypeName [writerDecl, readerDecl])"
    and l: "fmlookup (buildAllItems Interface_GetTypeName [writerDecl, readerDecl]) b = Some item"
    and d: "a \<in> set (Interface_ExtractDependencies item)"
    by (auto simp: dependencyEdges_def)
  from a have a': "a = ''Reader'' \<or> a = ''Writer''"
    by (auto simp: buildAllItems_dom interface_names)
  from buildAllItems_lookup[OF l] have "(item = writerDecl \<or> item = readerDecl) \<and> Interface_GetTypeName item = b"
    by auto
  with d a' have "a = ''Reader'' \<and> b = ''Writer''"
    by (auto simp: readerDecl_deps writerDecl_deps interface_names)
  with ab show "e \<in> {(''Reader'', ''Writer'')}" by simp
qed

lemma reader_writer_acyclic:
  "acyclic (dependencyEdges Interface_ExtractDependencies
     (buildAllItems Interface_GetTypeName [writerDecl, readerDecl]))"
proof (rule acyclic_subset[OF _ reader_writer_edges])
  have "acyclic ({} :: (string \<times> string) set)" by (rule wf_acyclic) simp
  then show "acyclic {(''Reader'', ''Writer'')}" by (simp add: acyclic_insert)
qed

lemma reader_writer_resolved:
  "ResolveDependencies Interface_ExtractDependencies Interface_GetTypeName
     [''Writer'', ''Reader''] [''Writer'', ''Reader''] [''Writer'', ''Reader'']
     [writerDecl, readerDecl] = [readerDecl, writerDecl]"
  by code_simp

theorem topological_order_witness:
  "rangeOrder [''Writer'', ''Reader''] (buildAllItems Interface_GetTypeName [writerDecl, readerDecl])
   \<and> acyclic (dependencyEdges Interface_ExtractDependencies
                 (buildAllItems Interface_GetTypeName [writerDecl, readerDecl]))
   \<and> ResolveDependencies Interface_ExtractDependencies Interface_GetTypeName
        [''Writer'', ''Reader''] [''Writer'', ''Reader''] [''Writer'', ''Reader'']
        [writerDecl, readerDecl] = [readerDecl, writerDecl]
   \<and> Interface_GetTypeName ([readerDecl, writerDecl] ! 0) \<noteq> []
   \<and> Interface_GetTypeName ([readerDecl, writerDecl] ! 0)
       \<in> set (Interface_ExtractDependencies ([readerDecl, writerDecl] ! 1))
   \<and> (0::nat) < 1"
proof -
  have p: "Interface_GetTypeName ([readerDecl, writerDecl] ! 0) \<noteq> []"
    by (simp add: interface_names)
  have d: "Interface_GetTypeName ([readerDecl, writerDecl] ! 0)
       \<in> set (Interface_ExtractDependencies ([readerDecl, writerDecl] ! 1))"
    by (simp add: interface_names writerDecl_deps)
  have i: "0 < length [readerDecl, writerDecl]" and j: "1 < length [readerDecl, writerDecl]"
    by simp_all
  have "(0::nat) < 1"
    by (rule topological_order[OF reader_writer_order reader_writer_order reader_writer_order
          reader_writer_acyclic reader_writer_resolved[symmetric] i j p d])
  with reader_writer_order reader_writer_acyclic reader_writer_resolved p d show ?thesis by blast
qed

text \<open>
  The condition on the name in the theorem above is needed. An item with an empty
  name is not registered in the item map; it is appended by the final loop, also after an
  item whose dependency list holds the empty name (which the extractor yields for the
  type text \<^verbatim>\<open>pkg.\<close>).
\<close>

lemma unnamed_item_is_appended:
  "Variable_ExtractDependencies dependentVar = [[]]
   \<and> ResolveDependencies Variable_ExtractDependencies Variable_GetTypeName
        [''B''] [''B''] [''B''] [unnamedVar, dependentVar] = [dependentVar, unnamedVar]"
  by code_simp

lemma resolve_subset:
  assumes o1: "rangeOrder ks\<^sub>1 (buildAllItems nm items)"
    and o2: "rangeOrder ks\<^sub>2 (buildAllItems nm items)"
    and o3: "rangeOrder ks\<^sub>3 (buildAllItems nm items)"
  shows "set (ResolveDependencies ex nm ks\<^sub>1 ks\<^sub>2 ks\<^sub>3 items) \<subseteq> set items"
proof -
  from resolve_structure[OF o1 o2 o3, of ex]
  obtain P r d where res: "ResolveDependencies ex nm ks\<^sub>1 ks\<^sub>2 ks\<^sub>3 items
                   = r @ filter (\<lambda>item. \<not> mapGet False P (nm item)) items"
    and inv: "kahnInv nm ex (buildAllItems nm items) ([], d, P, r)" by blast
  have "set r \<subseteq> set items"
  proof
    fix x assume "x \<in> set r"
    from buildAllItems_lookup[OF emitted_props(3)[OF inv this]] show "x \<in> set items" by simp
  qed
  with res show ?thesis by auto
qed

section \<open>Cycles\<close>















section \<open>Coverage of the input\<close>




section \<open>The level of an item\<close>

text \<open>
  Claim C4. Every item of the returned sequence should carry its index in the
  \<^verbatim>\<open>Level\<close> field. \<^verbatim>\<open>ResolveDependencies\<close> assigns no field of any item, and nothing
  else in the program assigns \<^verbatim>\<open>Level\<close>, although the stub generator and the
  renderers read it as the dependency level. For \<open>Writer\<close>, which depends on \<open>Reader\<close>,
  the result is \<open>Reader\<close>, \<open>Writer\<close>; \<open>Writer\<close> at index 1 still has level 0, and the
  stub generated for it is headed \<^verbatim>\<open>(Level 0)\<close>.
\<close>

theorem level_not_assigned:
  "ResolveDependencies Interface_ExtractDependencies Interface_GetTypeName
     [''Writer'', ''Reader''] [''Writer'', ''Reader''] [''Writer'', ''Reader'']
     [writerDecl, readerDecl] = [readerDecl, writerDecl]
   \<and> map GoInterface.Level
        (ResolveDependencies Interface_ExtractDependencies Interface_GetTypeName
           [''Writer'', ''Reader''] [''Writer'', ''Reader''] [''Writer'', ''Reader'']
           [writerDecl, readerDecl]) = [0, 0]
   \<and> GoInterface.Level
        (ResolveDependencies Interface_ExtractDependencies Interface_GetTypeName
           [''Writer'', ''Reader''] [''Writer'', ''Reader''] [''Writer'', ''Reader'']
           [writerDecl, readerDecl] ! 1) \<noteq> 1
   \<and> HasPrefix
        (Interface_GenerateCode
           (ResolveDependencies Interface_ExtractDependencies Interface_GetTypeName
              [''Writer'', ''Reader''] [''Writer'', ''Reader''] [''Writer'', ''Reader'']
              [writerDecl, readerDecl] ! 1))
        ''// NoOpWriter is a no-op implementation of Writer interface (Level 0)''"
proof -
  have g: "HasPrefix (Interface_GenerateCode writerDecl)
             ''// NoOpWriter is a no-op implementation of Writer interface (Level 0)''"
    by code_simp
  have l: "GoInterface.Level readerDecl = 0" "GoInterface.Level writerDecl = 0"
    by (simp_all add: readerDecl_def writerDecl_def)
  show ?thesis using g l by (simp add: reader_writer_resolved)
qed

section \<open>Self-references\<close>

lemma setAdd_set: "set (setAdd k ks) = insert k (set ks)"
  by (auto simp: setAdd_def)

lemma fold_excluding:
  "n \<notin> set acc \<Longrightarrow>
   n \<notin> set (fold (\<lambda>dep deps. if dep \<noteq> n then setAdd dep deps else deps) xs acc)"
  by (induction xs arbitrary: acc) (auto simp: setAdd_set)

lemma fold_fold_excluding:
  "n \<notin> set acc \<Longrightarrow>
   n \<notin> set (fold (\<lambda>field deps.
                      fold (\<lambda>dep deps. if dep \<noteq> n then setAdd dep deps else deps) (f field) deps)
                   fs acc)"
proof (induction fs arbitrary: acc)
  case Nil
  then show ?case by simp
next
  case (Cons a fs)
  from fold_excluding[OF Cons.prems, of "f a"] Cons.IH show ?case by simp
qed

text \<open>
  Claim C9. The dependency list of a declaration should never contain the declaration's
  own name. The extractors of structs and interfaces drop a dependency equal to
  \<^verbatim>\<open>item.Name\<close>, for every item. The extractors of functions, variables and constants
  have no such test: the function \<^verbatim>\<open>func handler(handler Handler)\<close> has \<open>handler\<close>, its
  own name and its key in the graph, among its dependencies, and a variable or constant
  whose type is written like its name has its own name as its dependency.
\<close>

theorem self_reference_exclusion:
  "(\<forall>item. GoStruct.Name item \<notin> set (Struct_ExtractDependencies item))
   \<and> (\<forall>item. GoInterface.Name item \<notin> set (Interface_ExtractDependencies item))
   \<and> Function_ExtractDependencies handlerFunc = [''handler'', ''Handler'']
   \<and> GoFunction.Name handlerFunc \<in> set (Function_ExtractDependencies handlerFunc)
   \<and> Function_GetTypeName handlerFunc \<in> set (Function_ExtractDependencies handlerFunc)
   \<and> GoVariable.Name configVar \<in> set (Variable_ExtractDependencies configVar)
   \<and> GoConstant.Name limitConst \<in> set (Constant_ExtractDependencies limitConst)"
proof (intro conjI allI)
  fix item :: GoStruct
  show "GoStruct.Name item \<notin> set (Struct_ExtractDependencies item)"
    unfolding Struct_ExtractDependencies_def by (rule fold_fold_excluding) simp
next
  fix item :: GoInterface
  show "GoInterface.Name item \<notin> set (Interface_ExtractDependencies item)"
    unfolding Interface_ExtractDependencies_def by (rule fold_fold_excluding) simp
next
  show h: "Function_ExtractDependencies handlerFunc = [''handler'', ''Handler'']" by code_simp
  show "GoFunction.Name handlerFunc \<in> set (Function_ExtractDependencies handlerFunc)"
    unfolding h by (simp add: handlerFunc_def)
  show "Function_GetTypeName handlerFunc \<in> set (Function_ExtractDependencies handlerFunc)"
    unfolding h by (simp add: handlerFunc_def Function_GetTypeName_def)
  have "Variable_ExtractDependencies configVar = [''Config'']" by code_simp
  then show "GoVariable.Name configVar \<in> set (Variable_ExtractDependencies configVar)"
    by (simp add: configVar_def)
  have "Constant_ExtractDependencies limitConst = [''Limit'']" by code_simp
  then show "GoConstant.Name limitConst \<in> set (Constant_ExtractDependencies limitConst)"
    by (simp add: limitConst_def)
qed

text \<open>
  The effect in the resolver: the function \<open>handler\<close> gets an edge to itself, its
  in-degree never reaches 0, and it is only appended by the final loop, after \<open>zeta\<close>.
\<close>

lemma self_reference_delays_function:
  "ResolveDependencies Function_ExtractDependencies Function_GetTypeName
     [''handler'', ''zeta''] [''handler'', ''zeta''] [''handler'', ''zeta'']
     [handlerFunc, zetaFunc] = [zetaFunc, handlerFunc]"
  by code_simp

section \<open>Determinism\<close>

lemma releaseAbs_simp:
  "releaseAbs x (d, Q) =
     (if mapGet 0 d x - 1 = 0 then (fmupd x (mapGet 0 d x - 1) d, add_mset x Q)
      else (fmupd x (mapGet 0 d x - 1) d, Q))"
  by (simp add: releaseAbs_def)

lemma releaseAbs_commute: "releaseAbs a (releaseAbs b s) = releaseAbs b (releaseAbs a s)"
proof (cases "a = b")
  case True
  then show ?thesis by simp
next
  case False
  obtain d Q where s: "s = (d, Q)" by (cases s)
  have r: "\<And>x y m. fmupd a x (fmupd b y m) = fmupd b y (fmupd a x m)"
    using False by (simp add: fmupd_reorder_neq)
  show ?thesis
    using False unfolding s by (simp add: releaseAbs_simp mapGet_fmupd r)
qed

lemma fold_releaseDependent_abs:
  "fold releaseDependent xs (d, q) = (d', q') \<Longrightarrow> fold releaseAbs xs (d, mset q) = (d', mset q')"
proof (induction xs arbitrary: d q)
  case Nil
  then show ?case by simp
next
  case (Cons x xs)
  obtain d1 q1 where s: "releaseDependent x (d, q) = (d1, q1)"
    by (cases "releaseDependent x (d, q)")
  with Cons.prems have "fold releaseDependent xs (d1, q1) = (d', q')" by simp
  from Cons.IH[OF this] have "fold releaseAbs xs (d1, mset q1) = (d', mset q')" .
  moreover have "releaseAbs x (d, mset q) = (d1, mset q1)"
    using s by (auto simp: releaseDependent_simp releaseAbs_simp split: if_splits)
  ultimately show ?case by simp
qed

lemma fold_releaseDependent_perm:
  assumes xy: "mset xs = mset ys" and q: "mset q1 = mset q2"
    and f1: "fold releaseDependent xs (d, q1) = (d1, q1')"
    and f2: "fold releaseDependent ys (d, q2) = (d2, q2')"
  shows "d1 = d2 \<and> mset q1' = mset q2'"
proof -
  have "fold releaseAbs xs = fold releaseAbs ys"
    by (rule fold_multiset_equiv[OF _ xy]) (auto simp: fun_eq_iff releaseAbs_commute)
  then have "fold releaseAbs xs (d, mset q1) = fold releaseAbs ys (d, mset q2)"
    using q by simp
  with fold_releaseDependent_abs[OF f1] fold_releaseDependent_abs[OF f2]
  show ?thesis by simp
qed

lemma sort_mset_cong: "mset xs = mset ys \<Longrightarrow> sort xs = sort (ys :: string list)"
  by (rule properties_for_sort) simp_all

lemma kahnLoop_cong:
  assumes G: "\<forall>a. mset (mapGet [] g1 a) = mset (mapGet [] g2 a)"
  shows "mset (fst s) = mset q2 \<Longrightarrow> kahnLoop M g1 s = kahnLoop M g2 (q2, snd s)"
  using G
proof (induction M g1 s arbitrary: q2 rule: kahnLoop.induct)
  case (1 M g1 q d P r)
  from "1.prems"(1) have mq: "mset q = mset q2" by simp
  then have sq: "sort q = sort q2" by (rule sort_mset_cong)
  show ?case
  proof (cases "q = []")
    case True
    with mq have "q2 = []" by simp
    with True show ?thesis by (simp add: kahnLoop_Nil)
  next
    case ne: False
    with mq have ne2: "q2 \<noteq> []" by auto
    show ?thesis
    proof (cases "mapGet False P (hd (sort q))")
      case True
      have "kahnLoop M g1 (tl (sort q), d, P, r) = kahnLoop M g2 (tl (sort q), snd (tl (sort q), d, P, r))"
        by (rule "1.IH"(1)[OF ne refl refl refl True _ "1.prems"(2)]) simp
      then show ?thesis
        using kahnLoop_skip[OF ne True, of M g1 d r] kahnLoop_skip[OF ne2, of P M g2 d r] True sq
        by simp
    next
      case False
      let ?c = "hd (sort q)"
      obtain d1 q1 where f1:
        "fold releaseDependent (mapGet [] g1 ?c) (d, tl (sort q)) = (d1, q1)"
        by (cases "fold releaseDependent (mapGet [] g1 ?c) (d, tl (sort q))")
      obtain d2 q2' where f2:
        "fold releaseDependent (mapGet [] g2 ?c) (d, tl (sort q)) = (d2, q2')"
        by (cases "fold releaseDependent (mapGet [] g2 ?c) (d, tl (sort q))")
      from "1.prems"(2) have "mset (mapGet [] g1 ?c) = mset (mapGet [] g2 ?c)" by blast
      from fold_releaseDependent_perm[OF this refl f1 f2]
      have dd: "d1 = d2" and qq: "mset q1 = mset q2'" by blast+
      let ?r' = "(case fmlookup M ?c of None \<Rightarrow> r | Some item \<Rightarrow> r @ [item])"
      have "kahnLoop M g1 (q1, d1, fmupd ?c True P, ?r')
            = kahnLoop M g2 (q2', snd (q1, d1, fmupd ?c True P, ?r'))"
        by (rule "1.IH"(2)[OF ne refl refl refl False refl refl refl f1[symmetric] _ "1.prems"(2)])
           (simp add: qq)
      then have "kahnLoop M g1 (q1, d1, fmupd ?c True P, ?r')
            = kahnLoop M g2 (q2', d2, fmupd ?c True P, ?r')" using dd by simp
      moreover have "kahnLoop M g1 (q, d, P, r) = kahnLoop M g1 (q1, d1, fmupd ?c True P, ?r')"
        by (rule kahnLoop_process[OF ne False f1])
      moreover have "kahnLoop M g2 (q2, d, P, r) = kahnLoop M g2 (q2', d2, fmupd ?c True P, ?r')"
        using kahnLoop_process[OF ne2, of P g2 d d2 q2' M r] False f2 sq by simp
      ultimately show ?thesis by simp
    qed
  qed
qed

lemma presentDeps_mset:
  assumes "\<forall>item. mset (ex' item) = mset (ex item)"
  shows "mset (presentDeps ex' M n) = mset (presentDeps ex M n)"
  using assms by (simp add: presentDeps_def split: option.splits)

lemma buildEdges_inDegree:
  assumes o1: "rangeOrder ks1 M" and o2: "rangeOrder ks2 M"
    and be: "buildEdges ex M ks2 (initNodes ks1) = (g, d)"
  shows "fmlookup d n = (if n \<in> fmdom' M then Some (int (length (presentDeps ex M n))) else None)"
proof -
  from o1 o2 have s1: "set ks1 = fmdom' M" and s2: "set ks2 = fmdom' M" and d2: "distinct ks2"
    by (simp_all add: rangeOrder_def)
  have be': "buildEdges ex M ks2 (fst (initNodes ks1), snd (initNodes ks1)) = (g, d)"
    using be by simp
  have deg: "mapGet 0 d n = (if n \<in> fmdom' M then int (length (presentDeps ex M n)) else 0)"
    using buildEdges_props(2)[OF be' d2] by (simp add: mapGet_initNodes_inDegree s2)
  have dom: "fmdom' d = fmdom' M"
    using buildEdges_props(3)[OF be' d2] by (auto simp: fmdom'_initNodes_inDegree s1 s2)
  show ?thesis using fmlookup_mapGet[of d n 0] deg dom by simp
qed

text \<open>
  \<^verbatim>\<open>inDegree\<close> has the keys of \<^verbatim>\<open>allItems\<close>: the orders in which Go may range over
  the one are those in which it may range over the other.
\<close>

lemma inDegree_keys:
  assumes o1: "rangeOrder ks1 M" and o2: "rangeOrder ks2 M"
    and be: "buildEdges ex M ks2 (initNodes ks1) = (g, d)"
  shows "fmdom' d = fmdom' M" and "rangeOrder ks d \<longleftrightarrow> rangeOrder ks M"
proof -
  show "fmdom' d = fmdom' M"
    using buildEdges_inDegree[OF o1 o2 be] by (auto simp: fmlookup_dom'_iff split: if_splits)
  then show "rangeOrder ks d \<longleftrightarrow> rangeOrder ks M" by (simp add: rangeOrder_def)
qed

lemma initial_state_cong:
  assumes o1: "rangeOrder ks1 M" and o2: "rangeOrder ks2 M" and o3: "rangeOrder ks3 M"
    and o1': "rangeOrder ks1' M" and o2': "rangeOrder ks2' M" and o3': "rangeOrder ks3' M"
    and ex: "\<forall>item. mset (ex' item) = mset (ex item)"
    and be: "buildEdges ex M ks2 (initNodes ks1) = (g, d)"
    and be': "buildEdges ex' M ks2' (initNodes ks1') = (g', d')"
  shows "d' = d" and "\<forall>a. mset (mapGet [] g' a) = mset (mapGet [] g a)"
    and "mset (initialQueue d' ks3') = mset (initialQueue d ks3)"
proof -
  note pm = presentDeps_mset[OF ex, of M]
  have len: "\<And>n. length (presentDeps ex' M n) = length (presentDeps ex M n)"
    using pm by (rule mset_eq_length)
  show dd: "d' = d"
  proof (rule fmap_ext)
    fix n
    show "fmlookup d' n = fmlookup d n"
      using buildEdges_inDegree[OF o1 o2 be, of n] buildEdges_inDegree[OF o1' o2' be', of n] len
      by simp
  qed
  have gr: "graphOf ex M g" using initial_state(1)[OF o1 o2 o3 be] .
  have gr': "graphOf ex' M g'" using initial_state(1)[OF o1' o2' o3' be'] .
  show "\<forall>a. mset (mapGet [] g' a) = mset (mapGet [] g a)"
  proof
    fix a
    show "mset (mapGet [] g' a) = mset (mapGet [] g a)"
    proof (rule multiset_eqI)
      fix n
      have "count_list (presentDeps ex' M n) a = count_list (presentDeps ex M n) a"
        using pm[of n] by (metis count_mset)
      then have "count_list (mapGet [] g' a) n = count_list (mapGet [] g a) n"
        using gr gr' by (simp add: graphOf_def)
      then show "count (mset (mapGet [] g' a)) n = count (mset (mapGet [] g a)) n"
        by (simp add: count_mset)
    qed
  qed
  from o3 o3' have "mset ks3' = mset ks3"
    by (simp add: rangeOrder_def set_eq_iff_mset_eq_distinct[symmetric])
  then show "mset (initialQueue d' ks3') = mset (initialQueue d ks3)"
    unfolding dd by (simp add: initialQueue_def)
qed

lemma resolve_order_independent:
  assumes o1: "rangeOrder ks1 (buildAllItems nm items)"
    and o2: "rangeOrder ks2 (buildAllItems nm items)"
    and o3: "rangeOrder ks3 (buildAllItems nm items)"
    and o1': "rangeOrder ks1' (buildAllItems nm items)"
    and o2': "rangeOrder ks2' (buildAllItems nm items)"
    and o3': "rangeOrder ks3' (buildAllItems nm items)"
    and ex: "\<forall>item. mset (ex' item) = mset (ex item)"
  shows "ResolveDependencies ex' nm ks1' ks2' ks3' items = ResolveDependencies ex nm ks1 ks2 ks3 items"
proof -
  let ?M = "buildAllItems nm items"
  obtain g d where be: "buildEdges ex ?M ks2 (initNodes ks1) = (g, d)"
    by (cases "buildEdges ex ?M ks2 (initNodes ks1)")
  obtain g' d' where be': "buildEdges ex' ?M ks2' (initNodes ks1') = (g', d')"
    by (cases "buildEdges ex' ?M ks2' (initNodes ks1')")
  note c = initial_state_cong[OF o1 o2 o3 o1' o2' o3' ex be be']
  have "kahnLoop ?M g' (initialQueue d' ks3', d', fmempty, [])
        = kahnLoop ?M g (initialQueue d ks3, snd (initialQueue d' ks3', d', fmempty, []))"
    by (rule kahnLoop_cong[OF c(2)]) (simp add: c(3))
  then have "kahnLoop ?M g' (initialQueue d' ks3', d', fmempty, [])
        = kahnLoop ?M g (initialQueue d ks3, d, fmempty, [])"
    using c(1) by simp
  then show ?thesis
    by (simp add: ResolveDependencies_def Let_def be be')
qed

lemma hd_sort_Min:
  assumes "q \<noteq> []"
  shows "hd (sort q) = Min (set (q :: string list))"
proof -
  have sq: "sort q = hd (sort q) # tl (sort q)" using assms by (rule sort_hd_tl)
  have "sorted (hd (sort q) # tl (sort q))" using sq sorted_sort[of q] by simp
  then have le: "\<And>y. y \<in> set (tl (sort q)) \<Longrightarrow> hd (sort q) \<le> y" by simp
  have setq: "set q = insert (hd (sort q)) (set (tl (sort q)))"
    using sq by (metis list.simps(15) set_sort)
  show ?thesis
  proof (rule Min_eqI[symmetric])
    show "finite (set q)" by simp
    show "hd (sort q) \<in> set q" using setq by simp
    fix y assume "y \<in> set q"
    with setq le show "hd (sort q) \<le> y" by auto
  qed
qed

lemma kahnLoop_emits_least:
  assumes ne: "queue \<noteq> []"
    and np: "\<not> mapGet False processed (Min (set queue))"
    and it: "fmlookup allItems (Min (set queue)) = Some item"
  shows "kahnLoop allItems graph (queue, inDegree, processed, result)
         = (case fold releaseDependent (mapGet [] graph (Min (set queue))) (inDegree, tl (sort queue)) of
              (inDegree', queue') \<Rightarrow>
                kahnLoop allItems graph
                  (queue', inDegree', fmupd (Min (set queue)) True processed, result @ [item]))"
proof -
  note m = hd_sort_Min[OF ne]
  obtain d' q' where f:
    "fold releaseDependent (mapGet [] graph (hd (sort queue))) (inDegree, tl (sort queue)) = (d', q')"
    by (cases "fold releaseDependent (mapGet [] graph (hd (sort queue))) (inDegree, tl (sort queue))")
  from np have np': "\<not> mapGet False processed (hd (sort queue))" by (simp add: m)
  from kahnLoop_process[OF ne np' f, of allItems result] it f show ?thesis by (simp add: m)
qed

lemma alpha_bravo_names:
  "Variable_GetTypeName alphaDecl = ''Alpha''" "Variable_GetTypeName bravoDecl = ''Bravo''"
  by (simp_all add: Variable_GetTypeName_def alphaDecl_def bravoDecl_def)

lemma alpha_bravo_order:
  "rangeOrder [''Bravo'', ''Alpha''] (buildAllItems Variable_GetTypeName [bravoDecl, alphaDecl])"
  "rangeOrder [''Alpha'', ''Bravo''] (buildAllItems Variable_GetTypeName [bravoDecl, alphaDecl])"
  by (auto simp: rangeOrder_def buildAllItems_dom alpha_bravo_names)

lemma alpha_bravo_resolved:
  "ResolveDependencies Variable_ExtractDependencies Variable_GetTypeName
     [''Bravo'', ''Alpha''] [''Bravo'', ''Alpha''] [''Bravo'', ''Alpha'']
     [bravoDecl, alphaDecl] = [alphaDecl, bravoDecl]"
  by code_simp

text \<open>
  Claim C2. \<^verbatim>\<open>ResolveDependencies\<close> is deterministic. Go fixes neither the order of
  the three loops over a map nor the order in which an extractor lists the dependencies
  it has collected in a map; the result is the same for all of them, so two runs on the
  same input return the same sequence. The reason is the step of Kahn's loop: the name
  taken from a non-empty queue is the head of the sorted queue, which is the least name
  in it, and the item registered under that name is the next one appended to the result.
  In particular, for the two independent items \<open>Bravo\<close> and \<open>Alpha\<close>, \<open>Alpha\<close> is
  emitted before \<open>Bravo\<close>, whatever the map orders.
\<close>

theorem resolve_deterministic:
  "(\<forall>ks\<^sub>1 ks\<^sub>2 ks\<^sub>3 ks\<^sub>1' ks\<^sub>2' ks\<^sub>3' extractDependencies'.
      rangeOrder ks\<^sub>1 (buildAllItems getTypeName items)
      \<and> rangeOrder ks\<^sub>2 (buildAllItems getTypeName items)
      \<and> rangeOrder ks\<^sub>3 (buildAllItems getTypeName items)
      \<and> rangeOrder ks\<^sub>1' (buildAllItems getTypeName items)
      \<and> rangeOrder ks\<^sub>2' (buildAllItems getTypeName items)
      \<and> rangeOrder ks\<^sub>3' (buildAllItems getTypeName items)
      \<and> (\<forall>item. mset (extractDependencies' item) = mset (extractDependencies item))
      \<longrightarrow> ResolveDependencies extractDependencies' getTypeName ks\<^sub>1' ks\<^sub>2' ks\<^sub>3' items
          = ResolveDependencies extractDependencies getTypeName ks\<^sub>1 ks\<^sub>2 ks\<^sub>3 items)
   \<and> (queue \<noteq> [] \<longrightarrow> hd (sort queue) = Min (set queue))
   \<and> (queue \<noteq> [] \<and> \<not> mapGet False processed (Min (set queue))
        \<and> fmlookup allItems (Min (set queue)) = Some item
      \<longrightarrow> kahnLoop allItems graph (queue, inDegree, processed, result)
          = (case fold releaseDependent (mapGet [] graph (Min (set queue)))
                   (inDegree, tl (sort queue)) of
               (inDegree', queue') \<Rightarrow>
                 kahnLoop allItems graph
                   (queue', inDegree', fmupd (Min (set queue)) True processed, result @ [item])))
   \<and> (\<forall>ks\<^sub>1 ks\<^sub>2 ks\<^sub>3.
        rangeOrder ks\<^sub>1 (buildAllItems Variable_GetTypeName [bravoDecl, alphaDecl])
        \<and> rangeOrder ks\<^sub>2 (buildAllItems Variable_GetTypeName [bravoDecl, alphaDecl])
        \<and> rangeOrder ks\<^sub>3 (buildAllItems Variable_GetTypeName [bravoDecl, alphaDecl])
        \<longrightarrow> ResolveDependencies Variable_ExtractDependencies Variable_GetTypeName ks\<^sub>1 ks\<^sub>2 ks\<^sub>3
              [bravoDecl, alphaDecl] = [alphaDecl, bravoDecl])"
proof (intro conjI allI impI)
  fix ks\<^sub>1 ks\<^sub>2 ks\<^sub>3 ks\<^sub>1' ks\<^sub>2' ks\<^sub>3' :: "string list" and extractDependencies' :: "'a \<Rightarrow> string list"
  assume h: "rangeOrder ks\<^sub>1 (buildAllItems getTypeName items)
      \<and> rangeOrder ks\<^sub>2 (buildAllItems getTypeName items)
      \<and> rangeOrder ks\<^sub>3 (buildAllItems getTypeName items)
      \<and> rangeOrder ks\<^sub>1' (buildAllItems getTypeName items)
      \<and> rangeOrder ks\<^sub>2' (buildAllItems getTypeName items)
      \<and> rangeOrder ks\<^sub>3' (buildAllItems getTypeName items)
      \<and> (\<forall>item. mset (extractDependencies' item) = mset (extractDependencies item))"
  then have o: "rangeOrder ks\<^sub>1 (buildAllItems getTypeName items)"
      "rangeOrder ks\<^sub>2 (buildAllItems getTypeName items)"
      "rangeOrder ks\<^sub>3 (buildAllItems getTypeName items)"
      "rangeOrder ks\<^sub>1' (buildAllItems getTypeName items)"
      "rangeOrder ks\<^sub>2' (buildAllItems getTypeName items)"
      "rangeOrder ks\<^sub>3' (buildAllItems getTypeName items)"
      "\<forall>item. mset (extractDependencies' item) = mset (extractDependencies item)"
    by simp_all
  show "ResolveDependencies extractDependencies' getTypeName ks\<^sub>1' ks\<^sub>2' ks\<^sub>3' items
          = ResolveDependencies extractDependencies getTypeName ks\<^sub>1 ks\<^sub>2 ks\<^sub>3 items"
    by (rule resolve_order_independent[OF o])
next
  assume "queue \<noteq> []"
  then show "hd (sort queue) = Min (set queue)" by (rule hd_sort_Min)
next
  assume "queue \<noteq> [] \<and> \<not> mapGet False processed (Min (set queue))
        \<and> fmlookup allItems (Min (set queue)) = Some item"
  then have k: "queue \<noteq> []" "\<not> mapGet False processed (Min (set queue))"
      "fmlookup allItems (Min (set queue)) = Some item" by simp_all
  show "kahnLoop allItems graph (queue, inDegree, processed, result)
          = (case fold releaseDependent (mapGet [] graph (Min (set queue)))
                   (inDegree, tl (sort queue)) of
               (inDegree', queue') \<Rightarrow>
                 kahnLoop allItems graph
                   (queue', inDegree', fmupd (Min (set queue)) True processed, result @ [item]))"
    by (rule kahnLoop_emits_least[OF k])
next
  fix ks\<^sub>1 ks\<^sub>2 ks\<^sub>3 :: "string list"
  assume h: "rangeOrder ks\<^sub>1 (buildAllItems Variable_GetTypeName [bravoDecl, alphaDecl])
        \<and> rangeOrder ks\<^sub>2 (buildAllItems Variable_GetTypeName [bravoDecl, alphaDecl])
        \<and> rangeOrder ks\<^sub>3 (buildAllItems Variable_GetTypeName [bravoDecl, alphaDecl])"
  have "ResolveDependencies Variable_ExtractDependencies Variable_GetTypeName ks\<^sub>1 ks\<^sub>2 ks\<^sub>3
              [bravoDecl, alphaDecl]
        = ResolveDependencies Variable_ExtractDependencies Variable_GetTypeName
            [''Bravo'', ''Alpha''] [''Bravo'', ''Alpha''] [''Bravo'', ''Alpha''] [bravoDecl, alphaDecl]"
    by (rule resolve_order_independent[OF alpha_bravo_order(1) alpha_bravo_order(1)
          alpha_bravo_order(1) h[THEN conjunct1] h[THEN conjunct2, THEN conjunct1]
          h[THEN conjunct2, THEN conjunct2]]) simp
  then show "ResolveDependencies Variable_ExtractDependencies Variable_GetTypeName ks\<^sub>1 ks\<^sub>2 ks\<^sub>3
              [bravoDecl, alphaDecl] = [alphaDecl, bravoDecl]"
    by (simp add: alpha_bravo_resolved)
qed

theorem resolve_deterministic_witness:
  "rangeOrder [''Bravo'', ''Alpha''] (buildAllItems Variable_GetTypeName [bravoDecl, alphaDecl])
   \<and> rangeOrder [''Alpha'', ''Bravo''] (buildAllItems Variable_GetTypeName [bravoDecl, alphaDecl])
   \<and> ResolveDependencies Variable_ExtractDependencies Variable_GetTypeName
        [''Alpha'', ''Bravo''] [''Alpha'', ''Bravo''] [''Alpha'', ''Bravo''] [bravoDecl, alphaDecl]
      = ResolveDependencies Variable_ExtractDependencies Variable_GetTypeName
        [''Bravo'', ''Alpha''] [''Bravo'', ''Alpha''] [''Bravo'', ''Alpha''] [bravoDecl, alphaDecl]
   \<and> ResolveDependencies Variable_ExtractDependencies Variable_GetTypeName
        [''Alpha'', ''Bravo''] [''Bravo'', ''Alpha''] [''Alpha'', ''Bravo''] [bravoDecl, alphaDecl]
      = [alphaDecl, bravoDecl]
   \<and> Min (set [''Bravo'', ''Alpha'']) = ''Alpha''
   \<and> kahnLoop (buildAllItems Variable_GetTypeName [bravoDecl, alphaDecl]) fmempty
        ([''Bravo'', ''Alpha''], fmempty, fmempty, [])
      = kahnLoop (buildAllItems Variable_GetTypeName [bravoDecl, alphaDecl]) fmempty
        ([''Bravo''], fmempty, fmupd ''Alpha'' True fmempty, [alphaDecl])"
proof -
  let ?M = "buildAllItems Variable_GetTypeName [bravoDecl, alphaDecl]"
  note t = resolve_deterministic[where getTypeName = Variable_GetTypeName
      and items = "[bravoDecl, alphaDecl]" and extractDependencies = Variable_ExtractDependencies
      and queue = "[''Bravo'', ''Alpha'']" and processed = fmempty and allItems = ?M
      and item = alphaDecl and graph = fmempty and inDegree = fmempty and result = "[]"]
  note oB = alpha_bravo_order(1) and oA = alpha_bravo_order(2)
  have srt: "sort [''Bravo'', ''Alpha''] = [''Alpha'', ''Bravo'']" by simp
  from t have "hd (sort [''Bravo'', ''Alpha'']) = Min (set [''Bravo'', ''Alpha''])" by blast
  then have mn: "Min (set [''Bravo'', ''Alpha'']) = ''Alpha''" by (simp only: srt list.sel)
  have lk: "fmlookup ?M ''Alpha'' = Some alphaDecl"
    by (simp add: buildAllItems_def Let_def alpha_bravo_names)
  from t[THEN conjunct1] oA oB
  have e1: "ResolveDependencies Variable_ExtractDependencies Variable_GetTypeName
        [''Alpha'', ''Bravo''] [''Alpha'', ''Bravo''] [''Alpha'', ''Bravo''] [bravoDecl, alphaDecl]
      = ResolveDependencies Variable_ExtractDependencies Variable_GetTypeName
        [''Bravo'', ''Alpha''] [''Bravo'', ''Alpha''] [''Bravo'', ''Alpha''] [bravoDecl, alphaDecl]"
    by blast
  from t[THEN conjunct2, THEN conjunct2, THEN conjunct2] oA oB
  have e2: "ResolveDependencies Variable_ExtractDependencies Variable_GetTypeName
        [''Alpha'', ''Bravo''] [''Bravo'', ''Alpha''] [''Alpha'', ''Bravo''] [bravoDecl, alphaDecl]
      = [alphaDecl, bravoDecl]"
    by blast
  have pre: "[''Bravo'', ''Alpha''] \<noteq> []
      \<and> \<not> mapGet False fmempty (Min (set [''Bravo'', ''Alpha'']))
      \<and> fmlookup ?M (Min (set [''Bravo'', ''Alpha''])) = Some alphaDecl"
    unfolding mn using lk by (simp add: mapGet_fmempty)
  from t[THEN conjunct2, THEN conjunct2, THEN conjunct1] pre
  have "kahnLoop ?M fmempty ([''Bravo'', ''Alpha''], fmempty, fmempty, [])
      = (case fold releaseDependent (mapGet [] fmempty (Min (set [''Bravo'', ''Alpha''])))
                   (fmempty, tl (sort [''Bravo'', ''Alpha''])) of
               (inDegree', queue') \<Rightarrow>
                 kahnLoop ?M fmempty
                   (queue', inDegree', fmupd (Min (set [''Bravo'', ''Alpha''])) True fmempty, [] @ [alphaDecl]))"
    by blast
  then have e3: "kahnLoop ?M fmempty ([''Bravo'', ''Alpha''], fmempty, fmempty, [])
      = kahnLoop ?M fmempty ([''Bravo''], fmempty, fmupd ''Alpha'' True fmempty, [alphaDecl])"
    unfolding mn srt by (simp add: mapGet_fmempty)
  from oB oA e1 e2 mn e3 show ?thesis by blast
qed

end
